theory Spec2Isabelle
  imports
    Complex_Main
    "HOL-Library.AList"
    "HOL-Library.Char_ord"
    "HOL-Library.List_Lexorder"
    "HOL-Library.Multiset"
    "HOL-Library.Product_Lexorder"
begin

section \<open>RFM segmentation pipeline (rfm\_package/rfm/main.py)\<close>

text \<open>
  The pipeline works on pandas data frames. A frame is modelled column by column, as the
  ordered association list of its column names and column values; a column assignment
  \<^verbatim>\<open>data[name] = values\<close> replaces a column of that name where it stands or appends a
  new one, which is \<^const>\<open>AList.update\<close>. Frames are Python objects that the stages
  share and mutate, so they live in an explicit store and the stages take and return
  references.

  Values are integers (\<open>IntV\<close>: counts, day numbers, revenue), strings (\<open>StrV\<close>, also
  the labels of a categorical column) and timestamps (\<open>TimeV\<close>, nanoseconds since the
  epoch, as pandas keeps them). Integer columns are int64 columns and timestamps are
  64-bit too: the model carries them as mathematical integers and writes the
  wrap-around out where the code adds them up. Missing values (NaN), floating point
  columns, and columns of other Python objects (dates, time spans) are outside the
  model.
\<close>

subsection \<open>Values, errors, frames and the store\<close>

datatype cell = IntV (the_int: int) | StrV (the_str: string) | TimeV (the_time: int)

text \<open>
  The exceptions the code can raise, all of them raised by Python or pandas: the module
  defines no exception of its own and catches none. \<open>Unmodelled\<close> marks behaviour of the
  library that the model does not describe.
\<close>

datatype err = KeyError | AttributeError | TypeError | ValueError | Unmodelled

type_synonym column = "cell list"
type_synonym frame = "(string \<times> column) list"
type_synonym row = "(string \<times> cell) list"
type_synonym ref = nat
type_synonym heap = "frame list"

text \<open>
  Values of one kind are ordered as Python orders them (integers and timestamps by value,
  strings lexicographically by character code). Values of different kinds are ordered by
  kind only to make the order total; the operations that compare values reject columns of
  mixed kinds first.
\<close>

fun cell_key :: "cell \<Rightarrow> nat \<times> int \<times> string" where
  "cell_key (IntV i) = (0, i, [])"
| "cell_key (StrV s) = (1, 0, s)"
| "cell_key (TimeV t) = (2, t, [])"

instantiation cell :: linorder
begin

definition less_eq_cell :: "cell \<Rightarrow> cell \<Rightarrow> bool" where
  "less_eq_cell a b \<longleftrightarrow> cell_key a \<le> cell_key b"

definition less_cell :: "cell \<Rightarrow> cell \<Rightarrow> bool" where
  "less_cell a b \<longleftrightarrow> cell_key a < cell_key b"

instance
proof
  fix x y z :: cell
  show "x < y \<longleftrightarrow> x \<le> y \<and> \<not> y \<le> x"
    unfolding less_cell_def less_eq_cell_def by (rule less_le_not_le)
  show "x \<le> x"
    unfolding less_eq_cell_def by (rule order_refl)
  show "x \<le> y \<Longrightarrow> y \<le> z \<Longrightarrow> x \<le> z"
    unfolding less_eq_cell_def by (rule order_trans)
  show "x \<le> y \<or> y \<le> x"
    unfolding less_eq_cell_def by (rule linear)
  show "x \<le> y \<Longrightarrow> y \<le> x \<Longrightarrow> x = y"
  proof -
    assume "x \<le> y" and "y \<le> x"
    then have "cell_key x = cell_key y"
      unfolding less_eq_cell_def by (rule antisym)
    then show "x = y"
      by (cases x; cases y) simp_all
  qed
qed

end

definition same_kind :: "column \<Rightarrow> bool" where
  "same_kind c \<longleftrightarrow> (\<forall>x \<in> set c. \<forall>y \<in> set c. fst (cell_key x) = fst (cell_key y))"

text \<open>\<^verbatim>\<open>data[name]\<close> and \<^verbatim>\<open>data.name\<close>: a missing column is a KeyError, respectively an
  AttributeError.\<close>

definition getitem :: "frame \<Rightarrow> string \<Rightarrow> err + column" where
  "getitem df name = (case map_of df name of None \<Rightarrow> Inl KeyError | Some c \<Rightarrow> Inr c)"

definition getattr :: "frame \<Rightarrow> string \<Rightarrow> err + column" where
  "getattr df name = (case map_of df name of None \<Rightarrow> Inl AttributeError | Some c \<Rightarrow> Inr c)"

text \<open>\<^verbatim>\<open>data[name] = c\<close>: the object that \<open>data\<close> refers to is changed in place.\<close>

definition setitem :: "heap \<Rightarrow> ref \<Rightarrow> string \<Rightarrow> column \<Rightarrow> heap" where
  "setitem h data name c = h[data := AList.update name c (h ! data)]"

definition nrows :: "frame \<Rightarrow> nat" where
  "nrows df = (case df of [] \<Rightarrow> 0 | (name, c) # rest \<Rightarrow> length c)"

definition wf_frame :: "frame \<Rightarrow> bool" where
  "wf_frame df \<longleftrightarrow> (\<forall>(name, c) \<in> set df. length c = nrows df)"

text \<open>Running a fallible function over a list stops at the first exception.\<close>

fun traverse :: "('a \<Rightarrow> err + 'b) \<Rightarrow> 'a list \<Rightarrow> err + 'b list" where
  "traverse f [] = Inr []"
| "traverse f (x # xs) =
     (case f x of
        Inl e \<Rightarrow> Inl e
      | Inr y \<Rightarrow> (case traverse f xs of Inl e \<Rightarrow> Inl e | Inr ys \<Rightarrow> Inr (y # ys)))"

subsection \<open>Library operations: maximum, sum, casts\<close>

text \<open>\<^verbatim>\<open>Series.max()\<close>: nothing for an empty column, a TypeError where the values cannot be
  compared.\<close>

definition series_max :: "column \<Rightarrow> err + cell option" where
  "series_max c =
     (if c = [] then Inr None
      else if \<not> same_kind c then Inl TypeError
      else Inr (Some (fold max (tl c) (hd c))))"

text \<open>The values of an int64 column, and what 64-bit two's complement addition makes
  of a sum.\<close>

definition int64 :: "int \<Rightarrow> bool" where
  "int64 i \<longleftrightarrow> - (2 ^ 63) \<le> i \<and> i < 2 ^ 63"

definition wrap64 :: "int \<Rightarrow> int" where
  "wrap64 i = (i + 2 ^ 63) mod 2 ^ 64 - 2 ^ 63"

definition add64 :: "int \<Rightarrow> int \<Rightarrow> int" where
  "add64 x y = wrap64 (x + y)"

text \<open>\<^verbatim>\<open>Series.sum()\<close>: the integers of an int64 column are added in int64, where the
  sum wraps around without an exception; strings are concatenated; timestamps cannot be
  summed. Integers beyond int64 would make a column of Python objects, which is not
  modelled.\<close>

definition series_sum :: "column \<Rightarrow> err + cell" where
  "series_sum c =
     (if \<forall>x \<in> set c. is_IntV x then
        (if \<forall>x \<in> set c. int64 (the_int x)
         then Inr (IntV (wrap64 (sum_list (map the_int c))))
         else Inl Unmodelled)
      else if \<forall>x \<in> set c. is_StrV x then Inr (StrV (concat (map the_str c)))
      else Inl TypeError)"

definition is_digit :: "char \<Rightarrow> bool" where
  "is_digit ch \<longleftrightarrow> CHR ''0'' \<le> ch \<and> ch \<le> CHR ''9''"

text \<open>\<^verbatim>\<open>int(s)\<close> on a string of decimal digits. Python also accepts a sign, surrounding
  blanks and underscores, and raises ValueError on anything else; the labels that the
  pipeline casts are digit strings, and other strings are left unmodelled.\<close>

definition py_int :: "string \<Rightarrow> err + int" where
  "py_int s =
     (if s \<noteq> [] \<and> (\<forall>ch \<in> set s. is_digit ch)
      then Inr (int (fold (\<lambda>ch n. 10 * n + (of_char ch - 48)) s 0))
      else Inl Unmodelled)"

fun str_nat :: "nat \<Rightarrow> string" where
  "str_nat n =
     (if n < 10 then [char_of (48 + n)]
      else str_nat (n div 10) @ [char_of (48 + n mod 10)])"

declare str_nat.simps [simp del]

definition py_str :: "int \<Rightarrow> string" where
  "py_str i = (if i < 0 then CHR ''-'' # str_nat (nat (- i)) else str_nat (nat i))"

text \<open>\<^verbatim>\<open>.astype(int)\<close> and \<^verbatim>\<open>.astype(str)\<close>, value by value. The integers of
  \<^verbatim>\<open>.astype(int)\<close> are int64 values; the cast of a number that does not fit, and casts of
  timestamps, are not modelled.\<close>

fun cell_to_int :: "cell \<Rightarrow> err + int" where
  "cell_to_int (IntV i) = Inr i"
| "cell_to_int (StrV s) =
     (case py_int s of
        Inl e \<Rightarrow> Inl e
      | Inr i \<Rightarrow> if int64 i then Inr i else Inl Unmodelled)"
| "cell_to_int (TimeV t) = Inl Unmodelled"

fun cell_to_str :: "cell \<Rightarrow> err + string" where
  "cell_to_str (IntV i) = Inr (py_str i)"
| "cell_to_str (StrV s) = Inr s"
| "cell_to_str (TimeV t) = Inl Unmodelled"

definition astype_int :: "column \<Rightarrow> err + int list" where
  "astype_int c = traverse cell_to_int c"

definition astype_str :: "column \<Rightarrow> err + string list" where
  "astype_str c = traverse cell_to_str c"

subsection \<open>Library operations: quantile cut\<close>

text \<open>
  \<^verbatim>\<open>pd.qcut(x, 4, labels)\<close> computes the five bin edges as the quantiles 0, 1/4, 1/2, 3/4
  and 1 of \<open>x\<close> with linear interpolation between the two nearest order statistics,
  raises ValueError when two edges coincide, and otherwise gives every value the label
  of its bin: bin \<open>i\<close> holds the values in \<open>(edge (i-1), edge i]\<close>, found by a left
  binary search in the edges, and the lowest edge belongs to bin 1. Labels are handed out
  in ascending bin order. A value outside all bins would get a missing label.

  pandas computes the edges in float64. For integers of magnitude up to \<open>2 ^ 48\<close> every
  step of that computation (the positions \<open>k (n - 1) / 4\<close>, the difference of two
  neighbours, its product with 1/4, 1/2 or 3/4, the sum) is exact in float64, so the
  edges are the exact rationals below, and so are the comparisons with them. Larger
  values, for which float64 rounds, are left unmodelled, and so is the empty column,
  whose exception depends on the version of pandas.
\<close>

definition numeric :: "column \<Rightarrow> rat list option" where
  "numeric c =
     (if \<forall>x \<in> set c. is_IntV x then Some (map (\<lambda>x. of_int (the_int x)) c)
      else if \<forall>x \<in> set c. is_TimeV x then Some (map (\<lambda>x. of_int (the_time x)) c)
      else None)"

text \<open>The columns on which the float64 computation of the edges is exact; \<open>qcut\<close> below
  uses \<open>quantile4\<close> and \<open>bin_edges\<close> on these columns only.\<close>

definition exact_quantiles :: "rat list \<Rightarrow> bool" where
  "exact_quantiles xs \<longleftrightarrow> xs \<noteq> [] \<and> (\<forall>x \<in> set xs. \<bar>x\<bar> \<le> 2 ^ 48)"

definition quantile4 :: "rat list \<Rightarrow> nat \<Rightarrow> rat" where
  "quantile4 xs k =
     (let s = sort xs;
          p = k * (length xs - 1);
          lo = p div 4;
          fr = p mod 4
      in if fr = 0 then s ! lo
         else s ! lo + (s ! (lo + 1) - s ! lo) * (of_nat fr / 4))"

definition bin_edges :: "rat list \<Rightarrow> rat list" where
  "bin_edges xs = map (quantile4 xs) [0, 1, 2, 3, 4]"

definition searchsorted_left :: "rat list \<Rightarrow> rat \<Rightarrow> nat" where
  "searchsorted_left bins x = length (takeWhile (\<lambda>b. b < x) bins)"

definition bin_id :: "rat list \<Rightarrow> rat \<Rightarrow> nat" where
  "bin_id bins x = (if x = hd bins then 1 else searchsorted_left bins x)"

definition take_label :: "string list \<Rightarrow> nat \<Rightarrow> err + cell" where
  "take_label labels i =
     (if i = 0 \<or> length labels < i then Inl Unmodelled else Inr (StrV (labels ! (i - 1))))"

definition qcut :: "column \<Rightarrow> string list \<Rightarrow> err + column" where
  "qcut x labels =
     (case numeric x of
        None \<Rightarrow> Inl TypeError
      | Some xs \<Rightarrow>
          (let bins = bin_edges xs in
           if \<not> exact_quantiles xs then Inl Unmodelled
           else if \<not> distinct bins then Inl ValueError
           else if \<not> distinct labels \<or> length labels \<noteq> length bins - 1 then Inl ValueError
           else traverse (\<lambda>v. take_label labels (bin_id bins v)) xs))"

subsection \<open>Library operations: sorting a frame by a column\<close>

text \<open>
  \<^verbatim>\<open>data.sort_values(name, ascending=False)\<close> returns a new frame, the rows of \<open>data\<close>
  reordered by the index list that pandas computes for the key column: for a descending
  sort it reverses the keys and their positions, lets numpy sort the reversed keys in
  ascending order, and reverses the result.

  The code does not choose the sorting algorithm, so pandas takes \<open>kind='quicksort'\<close>,
  which is not stable. The sort of numpy is therefore a parameter \<open>argsort\<close> of the
  model. What numpy guarantees of it is \<open>valid_argsort\<close>: the result is a permutation of
  the positions that puts the keys in ascending order. Where rows have equal keys, the
  guarantee does not fix their order.
\<close>

type_synonym argsort = "column \<Rightarrow> err + nat list"

definition valid_argsort :: "argsort \<Rightarrow> bool" where
  "valid_argsort a \<longleftrightarrow>
     (\<forall>k. \<exists>p. a k = Inr p \<and> distinct p \<and> set p = {0..<length k}
               \<and> sorted (map (\<lambda>i. k ! i) p))"

definition nargsort :: "argsort \<Rightarrow> column \<Rightarrow> bool \<Rightarrow> err + nat list" where
  "nargsort a items ascending =
     (let idx = [0..<length items] in
      if ascending then
        (case a items of Inl e \<Rightarrow> Inl e | Inr p \<Rightarrow> Inr (map (\<lambda>j. idx ! j) p))
      else
        (case a (rev items) of
           Inl e \<Rightarrow> Inl e
         | Inr p \<Rightarrow> Inr (rev (map (\<lambda>j. rev idx ! j) p))))"

definition take_rows :: "nat list \<Rightarrow> frame \<Rightarrow> frame" where
  "take_rows indexer df = map (\<lambda>(name, c). (name, map (\<lambda>i. c ! i) indexer)) df"

definition sort_values :: "argsort \<Rightarrow> frame \<Rightarrow> string \<Rightarrow> bool \<Rightarrow> err + frame" where
  "sort_values a df name ascending =
     (case map_of df name of
        None \<Rightarrow> Inl KeyError
      | Some k \<Rightarrow>
          if \<not> same_kind k then Inl TypeError
          else
            (case nargsort a k ascending of
               Inl e \<Rightarrow> Inl e
             | Inr indexer \<Rightarrow> Inr (take_rows indexer df)))"

text \<open>A stable sort (insertion sort), which meets the guarantee and keeps rows with
  equal keys in their order.\<close>

definition stable_argsort :: argsort where
  "stable_argsort k = Inr (map snd (sort_key fst (zip k [0..<length k])))"

text \<open>
  The sort that numpy runs for \<open>kind='quicksort'\<close> on an array of Python objects
  (\<open>npy_aquicksort\<close>): \<open>t\<close> is the array of positions being permuted, \<open>v\<close> the keys. A
  range whose last position is more than \<open>SMALL_QUICKSORT\<close> after its first is
  partitioned around the median of its first, middle and last key, the pivot parked at
  \<open>pr - 1\<close>; a shorter range is sorted by insertion. \<open>SMALL_QUICKSORT\<close> is a constant of
  the numpy build, 15 or 16 depending on the release, and the first parameter \<open>small\<close> of
  the model.
  \<^verbatim>\<open>
      while ((pr - pl) > SMALL_QUICKSORT) {
          pm = pl + ((pr - pl) >> 1);
          if (LT(v[*pm], v[*pl])) INTP_SWAP(*pm, *pl);
          if (LT(v[*pr], v[*pm])) INTP_SWAP(*pr, *pm);
          if (LT(v[*pm], v[*pl])) INTP_SWAP(*pm, *pl);
          vp = v[*pm];
          pi = pl;
          pj = pr - 1;
          INTP_SWAP(*pm, *pj);
          for (;;) {
              do { ++pi; } while (LT(v[*pi], vp));
              do { --pj; } while (LT(vp, v[*pj]));
              if (pi >= pj) break;
              INTP_SWAP(*pi, *pj);
          }
          pk = pr - 1;
          INTP_SWAP(*pi, *pk);
          /* push largest partition on stack, go on with the smaller one */
          *psdepth++ = --cdepth;
      }
      /* insertion sort */
      for (pi = pl + 1; pi <= pr; ++pi) {
          vi = *pi; vp = v[vi]; pj = pi; pk = pi - 1;
          while (pj > pl && LT(vp, v[*pk])) { *pj-- = *pk--; }
          *pj = vi;
      }
  \<close>
  The two scans stop at the parked pivot and at the first position of the range at the
  latest; the model writes these bounds out (and writes \<open>ip\<close>, \<open>jp\<close> for the pointers
  \<open>pi\<close>, \<open>pj\<close>). A range taken from the stack when the depth
  counter has run below zero is sorted by heapsort, which is not modelled.
\<close>

definition swap :: "nat list \<Rightarrow> nat \<Rightarrow> nat \<Rightarrow> nat list" where
  "swap t i j = t[i := t ! j, j := t ! i]"

function scan_up :: "column \<Rightarrow> nat list \<Rightarrow> cell \<Rightarrow> nat \<Rightarrow> nat \<Rightarrow> nat" where
  "scan_up v t vp pr ip =
     (if ip < pr \<and> v ! (t ! ip) < vp then scan_up v t vp pr (ip + 1) else ip)"
  by pat_completeness auto
termination
  by (relation "measure (\<lambda>(v, t, vp, pr, ip). pr - ip)") auto

function scan_down :: "column \<Rightarrow> nat list \<Rightarrow> cell \<Rightarrow> nat \<Rightarrow> nat \<Rightarrow> nat" where
  "scan_down v t vp pl jp =
     (if pl < jp \<and> vp < v ! (t ! jp) then scan_down v t vp pl (jp - 1) else jp)"
  by pat_completeness auto
termination
  by (relation "measure (\<lambda>(v, t, vp, pl, jp). jp)") auto

declare scan_up.simps [simp del] scan_down.simps [simp del]

lemma scan_up_bounds: "ip \<le> scan_up v t vp pr ip" "ip \<le> pr \<Longrightarrow> scan_up v t vp pr ip \<le> pr"
proof -
  show "ip \<le> scan_up v t vp pr ip"
  proof (induction v t vp pr ip rule: scan_up.induct)
    case (1 v t vp pr ip)
    then show ?case by (subst scan_up.simps) (auto simp: Suc_leD)
  qed
  show "ip \<le> pr \<Longrightarrow> scan_up v t vp pr ip \<le> pr"
  proof (induction v t vp pr ip rule: scan_up.induct)
    case (1 v t vp pr ip)
    then show ?case by (subst scan_up.simps) auto
  qed
qed

lemma scan_down_bounds: "scan_down v t vp pl jp \<le> jp"
proof (induction v t vp pl jp rule: scan_down.induct)
  case (1 v t vp pl jp)
  then show ?case by (subst scan_down.simps) (auto simp: le_diff_conv)
qed

function partition_loop ::
  "column \<Rightarrow> nat list \<Rightarrow> cell \<Rightarrow> nat \<Rightarrow> nat \<Rightarrow> nat \<Rightarrow> nat \<Rightarrow> nat list \<times> nat" where
  "partition_loop v t vp pl pr ip jp =
     (let ip' = scan_up v t vp pr (ip + 1);
          jp' = scan_down v t vp pl (jp - 1)
      in if jp' \<le> ip' then (t, ip')
         else partition_loop v (swap t ip' jp') vp pl pr ip' jp')"
  by pat_completeness auto
termination
proof (relation "measure (\<lambda>(v, t, vp, pl, pr, ip, jp). jp - ip)")
  show "wf (measure (\<lambda>(v, t, vp, pl, pr, ip, jp). jp - ip))" by simp
next
  fix v t vp and pl pr ip jp ip' jp' :: nat
  assume a: "ip' = scan_up v t vp pr (ip + 1)" "jp' = scan_down v t vp pl (jp - 1)"
    and b: "\<not> jp' \<le> ip'"
  have "ip + 1 \<le> ip'" unfolding a by (rule scan_up_bounds)
  moreover have "jp' \<le> jp - 1" unfolding a by (rule scan_down_bounds)
  ultimately show "((v, swap t ip' jp', vp, pl, pr, ip', jp'), (v, t, vp, pl, pr, ip, jp))
          \<in> measure (\<lambda>(v, t, vp, pl, pr, ip, jp). jp - ip)"
    using b by simp
qed

declare partition_loop.simps [simp del]

definition median3 :: "column \<Rightarrow> nat list \<Rightarrow> nat \<Rightarrow> nat \<Rightarrow> nat \<Rightarrow> nat list" where
  "median3 v t pl pm pr =
     (let t1 = (if v ! (t ! pm) < v ! (t ! pl) then swap t pm pl else t);
          t2 = (if v ! (t1 ! pr) < v ! (t1 ! pm) then swap t1 pr pm else t1)
      in if v ! (t2 ! pm) < v ! (t2 ! pl) then swap t2 pm pl else t2)"

definition partition :: "column \<Rightarrow> nat list \<Rightarrow> nat \<Rightarrow> nat \<Rightarrow> nat list \<times> nat" where
  "partition v t pl pr =
     (let pm = pl + (pr - pl) div 2;
          t3 = median3 v t pl pm pr;
          vp = v ! (t3 ! pm);
          t4 = swap t3 pm (pr - 1);
          (t5, ip) = partition_loop v t4 vp pl pr pl (pr - 1)
      in (swap t5 ip (pr - 1), ip))"

lemma partition_loop_bounds:
  "ip < pr \<Longrightarrow> jp \<le> pr \<Longrightarrow>
     ip < snd (partition_loop v t vp pl pr ip jp) \<and> snd (partition_loop v t vp pl pr ip jp) \<le> pr"
proof (induction v t vp pl pr ip jp rule: partition_loop.induct)
  case (1 v t vp pl pr ip jp)
  let ?ip = "scan_up v t vp pr (ip + 1)"
  let ?jp = "scan_down v t vp pl (jp - 1)"
  have up: "ip + 1 \<le> ?ip" "?ip \<le> pr"
    using scan_up_bounds(1) [of "ip + 1" v t vp pr] scan_up_bounds(2) [of "ip + 1" pr v t vp]
      "1.prems" by simp_all
  have down: "?jp \<le> jp - 1" by (rule scan_down_bounds)
  show ?case
  proof (cases "?jp \<le> ?ip")
    case True
    then show ?thesis
      using up by (subst (1 2) partition_loop.simps) (simp add: Let_def)
  next
    case False
    then have lt: "?ip < pr" and le: "?jp \<le> pr"
      using down "1.prems" by simp_all
    from "1.IH" [OF refl refl False lt le] up False show ?thesis
      by (subst (1 2) partition_loop.simps) (simp add: Let_def)
  qed
qed

lemma partition_bounds:
  assumes "pl < pr" and "partition v t pl pr = (t', ip)"
  shows "pl < ip" and "ip \<le> pr"
proof -
  define t4 where "t4 = swap (median3 v t pl (pl + (pr - pl) div 2) pr)
        (pl + (pr - pl) div 2) (pr - 1)"
  define vp where "vp = v ! (median3 v t pl (pl + (pr - pl) div 2) pr ! (pl + (pr - pl) div 2))"
  have "ip = snd (partition_loop v t4 vp pl pr pl (pr - 1))"
    using assms(2) by (simp add: partition_def Let_def t4_def vp_def split: prod.splits)
  with partition_loop_bounds [OF assms(1), of "pr - 1" v t4 vp pl]
  show "pl < ip" and "ip \<le> pr" by simp_all
qed

lemma partition_bounds_range:
  "small < pr - pl \<Longrightarrow> (t', ip) = partition v t pl pr \<Longrightarrow> pl < ip \<and> ip \<le> pr"
  using partition_bounds [of pl pr v t t' ip] by simp

function shift_down ::
  "column \<Rightarrow> nat list \<Rightarrow> nat \<Rightarrow> cell \<Rightarrow> nat \<Rightarrow> nat list \<times> nat" where
  "shift_down v t pl vp jp =
     (if pl < jp \<and> vp < v ! (t ! (jp - 1))
      then shift_down v (t[jp := t ! (jp - 1)]) pl vp (jp - 1)
      else (t, jp))"
  by pat_completeness auto
termination
  by (relation "measure (\<lambda>(v, t, pl, vp, jp). jp)") auto

declare shift_down.simps [simp del]

definition insertion_step :: "column \<Rightarrow> nat \<Rightarrow> nat \<Rightarrow> nat list \<Rightarrow> nat list" where
  "insertion_step v pl ip t =
     (let vi = t ! ip;
          (t', jp) = shift_down v t pl (v ! vi) ip
      in t'[jp := vi])"

definition insertion_sort_range :: "column \<Rightarrow> nat list \<Rightarrow> nat \<Rightarrow> nat \<Rightarrow> nat list" where
  "insertion_sort_range v t pl pr = fold (insertion_step v pl) [pl + 1..<pr + 1] t"

text \<open>
  The driver: \<open>popped\<close> tells a range taken from the stack, for which the depth counter is
  checked, from the smaller part that the loop goes on with unchecked. Both parts of a
  partition carry the decremented counter.
\<close>

function aquicksort ::
  "nat \<Rightarrow> column \<Rightarrow> nat list \<Rightarrow> nat \<Rightarrow> nat \<Rightarrow> int \<Rightarrow> bool \<Rightarrow> err + nat list" where
  "aquicksort small v t pl pr cdepth popped =
     (if popped \<and> cdepth < 0 then Inl Unmodelled
      else if pr - pl > small then
        (case partition v t pl pr of
           (t', ip) \<Rightarrow>
             if ip - pl < pr - ip then
               (case aquicksort small v t' pl (ip - 1) (cdepth - 1) False of
                  Inl e \<Rightarrow> Inl e
                | Inr t'' \<Rightarrow> aquicksort small v t'' (ip + 1) pr (cdepth - 1) True)
             else
               (case aquicksort small v t' (ip + 1) pr (cdepth - 1) False of
                  Inl e \<Rightarrow> Inl e
                | Inr t'' \<Rightarrow> aquicksort small v t'' pl (ip - 1) (cdepth - 1) True))
      else Inr (insertion_sort_range v t pl pr))"
  by pat_completeness auto
termination
proof (relation "measure (\<lambda>(small, v, t, pl, pr, cdepth, popped). pr - pl)")
  show "wf (measure (\<lambda>(small, v, t, pl, pr, cdepth, popped). pr - pl))" by simp
qed (auto dest: partition_bounds_range)

declare aquicksort.simps [simp del]

fun npy_get_msb :: "nat \<Rightarrow> nat" where
  "npy_get_msb n = (if n < 2 then 0 else npy_get_msb (n div 2) + 1)"

declare npy_get_msb.simps [simp del]

definition npy_argsort :: "nat \<Rightarrow> argsort" where
  "npy_argsort small k =
     (let n = length k in
      if n = 0 then Inr []
      else aquicksort small k [0..<n] 0 (n - 1) (2 * int (npy_get_msb n)) True)"

subsection \<open>create\_rfm\_columns\<close>

text \<open>
  \<^verbatim>\<open>
  def create_rfm_columns(data, id, dates, revenue):
      max_date = data[dates].max()
      df = data.groupby(id).agg(
          {dates: lambda date: (max_date - date.max()).days,
                                 id: lambda num: len(num),
                                 revenue: lambda price: price.sum()})
      df.columns = ['Recency', 'Frequency', 'Monetary']
      df.reset_index(inplace = True)
      return df
  \<close>
  The difference of two timestamps is a time span, whose \<open>days\<close> are its whole days;
  a span of \<open>2 ^ 63\<close> nanoseconds (some 292 years) or more does not fit a time span and
  raises an exception whose class depends on the version of pandas, so it is left
  unmodelled, as are timestamps that do not fit 64 bits. The difference of two int64
  values has no \<open>days\<close> and strings cannot be subtracted. The groups are the distinct
  values of the \<open>id\<close> column in ascending order (the parameter \<open>id\<close> is written \<open>id'\<close>). The dictionary literal keeps one entry
  per distinct key, the last value written under it.
\<close>

definition ns_per_day :: int where
  "ns_per_day = 86400000000000"

definition timestamp :: "int \<Rightarrow> bool" where
  "timestamp t \<longleftrightarrow> - (2 ^ 63) < t \<and> t < 2 ^ 63"

definition days_between :: "cell option \<Rightarrow> cell option \<Rightarrow> err + cell" where
  "days_between max_date latest =
     (case (max_date, latest) of
        (Some (TimeV m), Some (TimeV d)) \<Rightarrow>
          if timestamp m \<and> timestamp d \<and> \<bar>m - d\<bar> < 2 ^ 63
          then Inr (IntV ((m - d) div ns_per_day))
          else Inl Unmodelled
      | (Some (IntV m), Some (IntV d)) \<Rightarrow> Inl AttributeError
      | _ \<Rightarrow> Inl TypeError)"

definition agg_recency :: "cell option \<Rightarrow> column \<Rightarrow> err + cell" where
  "agg_recency max_date date =
     (case series_max date of Inl e \<Rightarrow> Inl e | Inr latest \<Rightarrow> days_between max_date latest)"

definition agg_len :: "column \<Rightarrow> err + cell" where
  "agg_len num = Inr (IntV (int (length num)))"

definition agg_sum :: "column \<Rightarrow> err + cell" where
  "agg_sum price = series_sum price"

definition group_keys :: "column \<Rightarrow> column" where
  "group_keys idcol = sort (remdups idcol)"

definition group_of :: "column \<Rightarrow> column \<Rightarrow> cell \<Rightarrow> column" where
  "group_of idcol c k = map snd (filter (\<lambda>p. fst p = k) (zip idcol c))"

definition agg_column ::
  "frame \<Rightarrow> column \<Rightarrow> string \<times> (column \<Rightarrow> err + cell) \<Rightarrow> err + column" where
  "agg_column df idcol spec =
     (case getitem df (fst spec) of
        Inl e \<Rightarrow> Inl e
      | Inr c \<Rightarrow> traverse (\<lambda>k. snd spec (group_of idcol c k)) (group_keys idcol))"

text \<open>\<^verbatim>\<open>data.groupby(id).agg(spec)\<close>: every column that the dictionary names must exist;
  the aggregated columns come in the order of the dictionary.\<close>

definition groupby_agg ::
  "frame \<Rightarrow> column \<Rightarrow> (string \<times> (column \<Rightarrow> err + cell)) list \<Rightarrow> err + column list" where
  "groupby_agg df idcol spec =
     (if \<not> set (map fst spec) \<subseteq> set (map fst df) then Inl KeyError
      else traverse (agg_column df idcol) spec)"

definition create_rfm_columns ::
  "heap \<Rightarrow> ref \<Rightarrow> string \<Rightarrow> string \<Rightarrow> string \<Rightarrow> err + heap \<times> ref" where
  "create_rfm_columns h data id' dates revenue =
     (case getitem (h ! data) dates of
        Inl e \<Rightarrow> Inl e
      | Inr dcol \<Rightarrow>
     (case series_max dcol of
        Inl e \<Rightarrow> Inl e
      | Inr max_date \<Rightarrow>
     (case getitem (h ! data) id' of
        Inl e \<Rightarrow> Inl e
      | Inr idcol \<Rightarrow>
     (case groupby_agg (h ! data) idcol
             (AList.update revenue agg_sum
               (AList.update id' agg_len
                 (AList.update dates (agg_recency max_date) []))) of
        Inl e \<Rightarrow> Inl e
      | Inr cols \<Rightarrow>
          if length cols \<noteq> 3 then Inl ValueError
          else if id' \<in> set [''Recency'', ''Frequency'', ''Monetary''] then Inl ValueError
          else Inr (h @ [(id', group_keys idcol)
                          # zip [''Recency'', ''Frequency'', ''Monetary''] cols],
                    length h)))))"

subsection \<open>scale\_rfm\_columns\<close>

text \<open>
  \<^verbatim>\<open>
  def scale_rfm_columns(data):
      """
      Encodes Recency column from 1-4 (4 is the most recent)
      Encodes Frequency column 4-1 (4 is the more frequent)
      Encodes Monetary column 4-1 (4 is the most money)
      """
      data['R'] = pd.qcut(data['Recency'], 4, ['1', '2', '3', '4'])
      data['F'] = pd.qcut(data['Frequency'], 4, ['4', '3', '2', '1'])
      data['M'] = pd.qcut(data['Monetary'], 4, ['4', '3', '2', '1'])
      return data
  \<close>
\<close>

text \<open>One line of the function: \<^verbatim>\<open>data[target] = pd.qcut(data[source], 4, labels)\<close>.\<close>

definition assign_qcut :: "heap \<Rightarrow> ref \<Rightarrow> string \<Rightarrow> string \<Rightarrow> string list \<Rightarrow> err + heap" where
  "assign_qcut h data target source labels =
     (case getitem (h ! data) source of
        Inl e \<Rightarrow> Inl e
      | Inr c \<Rightarrow>
          (case qcut c labels of
             Inl e \<Rightarrow> Inl e
           | Inr ls \<Rightarrow> Inr (setitem h data target ls)))"

definition scale_rfm_columns :: "heap \<Rightarrow> ref \<Rightarrow> err + heap \<times> ref" where
  "scale_rfm_columns h data =
     (case assign_qcut h data ''R'' ''Recency'' [''1'', ''2'', ''3'', ''4''] of
        Inl e \<Rightarrow> Inl e
      | Inr h1 \<Rightarrow>
     (case assign_qcut h1 data ''F'' ''Frequency'' [''4'', ''3'', ''2'', ''1''] of
        Inl e \<Rightarrow> Inl e
      | Inr h2 \<Rightarrow>
     (case assign_qcut h2 data ''M'' ''Monetary'' [''4'', ''3'', ''2'', ''1''] of
        Inl e \<Rightarrow> Inl e
      | Inr h3 \<Rightarrow> Inr (h3, data))))"

subsection \<open>rfm\_scores and top\_customers\<close>

text \<open>
  \<^verbatim>\<open>
  def rfm_scores(data):
      data['RFM_Score'] = data.R.astype(int) +data.F.astype(int) + data.M.astype(int)
      data['RFM_Segment'] = data.R.astype(str) + data.F.astype(str) + data.M.astype(str)
      data = data.sort_values('RFM_Segment', ascending=False)
      return data

  def top_customers(data):
      data = data.sort_values('RFM_Segment', ascending=False)
      return data
  \<close>
  The two assignments change the frame that was passed in; the sort then makes a new
  frame, to which the local name \<open>data\<close> is rebound. The sum of the three int64 columns
  is an int64 column (\<open>add64\<close>). The first parameter of the model
  is the sort that numpy runs.
\<close>

definition three_columns ::
  "(column \<Rightarrow> err + 'a list) \<Rightarrow> frame \<Rightarrow> err + ('a list \<times> 'a list \<times> 'a list)" where
  "three_columns cast df =
     (case getattr df ''R'' of Inl e \<Rightarrow> Inl e | Inr rc \<Rightarrow>
     (case cast rc of Inl e \<Rightarrow> Inl e | Inr r \<Rightarrow>
     (case getattr df ''F'' of Inl e \<Rightarrow> Inl e | Inr fc \<Rightarrow>
     (case cast fc of Inl e \<Rightarrow> Inl e | Inr f \<Rightarrow>
     (case getattr df ''M'' of Inl e \<Rightarrow> Inl e | Inr mc \<Rightarrow>
     (case cast mc of Inl e \<Rightarrow> Inl e | Inr m \<Rightarrow> Inr (r, f, m)))))))"

text \<open>The first two lines, each an assignment to a column of \<open>data\<close>.\<close>

definition assign_score :: "heap \<Rightarrow> ref \<Rightarrow> err + heap" where
  "assign_score h data =
     (case three_columns astype_int (h ! data) of
        Inl e \<Rightarrow> Inl e
      | Inr (r, f, m) \<Rightarrow>
          Inr (setitem h data ''RFM_Score'' (map IntV (map2 add64 (map2 add64 r f) m))))"

definition assign_segment :: "heap \<Rightarrow> ref \<Rightarrow> err + heap" where
  "assign_segment h data =
     (case three_columns astype_str (h ! data) of
        Inl e \<Rightarrow> Inl e
      | Inr (rs, fs, ms) \<Rightarrow>
          Inr (setitem h data ''RFM_Segment'' (map StrV (map2 (@) (map2 (@) rs fs) ms))))"

definition rfm_scores :: "argsort \<Rightarrow> heap \<Rightarrow> ref \<Rightarrow> err + heap \<times> ref" where
  "rfm_scores a h data =
     (case assign_score h data of
        Inl e \<Rightarrow> Inl e
      | Inr h1 \<Rightarrow>
     (case assign_segment h1 data of
        Inl e \<Rightarrow> Inl e
      | Inr h2 \<Rightarrow>
     (case sort_values a (h2 ! data) ''RFM_Segment'' False of
        Inl e \<Rightarrow> Inl e
      | Inr sorted_df \<Rightarrow> Inr (h2 @ [sorted_df], length h2))))"

definition top_customers :: "argsort \<Rightarrow> heap \<Rightarrow> ref \<Rightarrow> err + heap \<times> ref" where
  "top_customers a h data =
     (case sort_values a (h ! data) ''RFM_Segment'' False of
        Inl e \<Rightarrow> Inl e
      | Inr sorted_df \<Rightarrow> Inr (h @ [sorted_df], length h))"

subsection \<open>naming and give\_names\_to\_segments\<close>

text \<open>
  \<^verbatim>\<open>
  def naming(df):
      if df['RFM_Score'] >= 9:
              return 'Can\'t Loose Them'
      elif ((df['RFM_Score'] >= 8) and (df['RFM_Score'] < 9)):
          return 'Champions'
      elif ((df['RFM_Score'] >= 7) and (df['RFM_Score'] < 8)):
          return 'Loyal/Commited'
      elif ((df['RFM_Score'] >= 6) and (df['RFM_Score'] < 7)):
          return 'Potential'
      elif ((df['RFM_Score'] >= 5) and (df['RFM_Score'] < 6)):
          return 'Promising'
      elif ((df['RFM_Score'] >= 4) and (df['RFM_Score'] < 5)):
          return 'Requires Attention'
      else:
          return 'Demands Activation'

  def give_names_to_segments(data):
      data['Segment_Name'] = data.apply(naming, axis=1)
      return data
  \<close>
  \<open>naming\<close> receives one row of the frame. Comparing a string or a timestamp with a
  number is a TypeError.
\<close>

definition naming :: "row \<Rightarrow> err + cell" where
  "naming df =
     (case map_of df ''RFM_Score'' of
        None \<Rightarrow> Inl KeyError
      | Some (IntV score) \<Rightarrow>
          Inr (StrV
            (if score \<ge> 9 then ''Can't Loose Them''
             else if score \<ge> 8 \<and> score < 9 then ''Champions''
             else if score \<ge> 7 \<and> score < 8 then ''Loyal/Commited''
             else if score \<ge> 6 \<and> score < 7 then ''Potential''
             else if score \<ge> 5 \<and> score < 6 then ''Promising''
             else if score \<ge> 4 \<and> score < 5 then ''Requires Attention''
             else ''Demands Activation''))
      | Some _ \<Rightarrow> Inl TypeError)"

definition iterrows :: "frame \<Rightarrow> row list" where
  "iterrows df = map (\<lambda>i. map (\<lambda>(name, c). (name, c ! i)) df) [0..<nrows df]"

definition give_names_to_segments :: "heap \<Rightarrow> ref \<Rightarrow> err + heap \<times> ref" where
  "give_names_to_segments h data =
     (case traverse naming (iterrows (h ! data)) of
        Inl e \<Rightarrow> Inl e
      | Inr names \<Rightarrow> Inr (setitem h data ''Segment_Name'' names, data))"

text \<open>The chain of comparisons in \<open>naming\<close>, as a function of the score.\<close>

definition segment_label :: "int \<Rightarrow> string" where
  "segment_label score =
     (if score \<ge> 9 then ''Can't Loose Them''
      else if score \<ge> 8 \<and> score < 9 then ''Champions''
      else if score \<ge> 7 \<and> score < 8 then ''Loyal/Commited''
      else if score \<ge> 6 \<and> score < 7 then ''Potential''
      else if score \<ge> 5 \<and> score < 6 then ''Promising''
      else if score \<ge> 4 \<and> score < 5 then ''Requires Attention''
      else ''Demands Activation'')"

text \<open>A permutation of the positions of \<open>n\<close> rows.\<close>

definition row_perm :: "nat \<Rightarrow> nat list \<Rightarrow> bool" where
  "row_perm n p \<longleftrightarrow> distinct p \<and> set p = {0..<n}"

text \<open>The positions of the rows of one customer, in the order of the table.\<close>

definition rows_of :: "column \<Rightarrow> cell \<Rightarrow> nat list" where
  "rows_of idcol k = filter (\<lambda>i. idcol ! i = k) [0..<length idcol]"


subsection \<open>Example tables\<close>

text \<open>Three purchases of two customers, on 2023-01-01, 2023-02-01 and 2023-02-10 (days
  19358, 19389 and 19398 after 1970-01-01).\<close>

definition transactions3 :: frame where
  "transactions3 =
     [(''customer'', [StrV ''C1'', StrV ''C1'', StrV ''C2'']),
      (''date'', [TimeV (19358 * ns_per_day), TimeV (19389 * ns_per_day),
                  TimeV (19398 * ns_per_day)]),
      (''revenue'', [IntV 100, IntV 50, IntV 500])]"

definition metrics3 :: frame where
  "metrics3 =
     [(''customer'', [StrV ''C1'', StrV ''C2'']),
      (''Recency'', [IntV 9, IntV 0]),
      (''Frequency'', [IntV 2, IntV 1]),
      (''Monetary'', [IntV 150, IntV 500])]"

definition metrics4 :: frame where
  "metrics4 =
     [(''id'', [IntV 1, IntV 2, IntV 3, IntV 4]),
      (''Recency'', [IntV 0, IntV 10, IntV 20, IntV 30]),
      (''Frequency'', [IntV 1, IntV 2, IntV 3, IntV 4]),
      (''Monetary'', [IntV 10, IntV 20, IntV 30, IntV 40])]"

definition encoded4 :: frame where
  "encoded4 =
     [(''id'', [IntV 1, IntV 2, IntV 3, IntV 4]),
      (''Recency'', [IntV 0, IntV 10, IntV 20, IntV 30]),
      (''Frequency'', [IntV 1, IntV 2, IntV 3, IntV 4]),
      (''Monetary'', [IntV 10, IntV 20, IntV 30, IntV 40]),
      (''R'', [StrV ''1'', StrV ''2'', StrV ''3'', StrV ''4'']),
      (''F'', [StrV ''4'', StrV ''3'', StrV ''2'', StrV ''1'']),
      (''M'', [StrV ''4'', StrV ''3'', StrV ''2'', StrV ''1''])]"

definition scored4_data :: frame where
  "scored4_data =
     [(''id'', [IntV 1, IntV 2, IntV 3, IntV 4]),
      (''Recency'', [IntV 0, IntV 10, IntV 20, IntV 30]),
      (''Frequency'', [IntV 1, IntV 2, IntV 3, IntV 4]),
      (''Monetary'', [IntV 10, IntV 20, IntV 30, IntV 40]),
      (''R'', [StrV ''1'', StrV ''2'', StrV ''3'', StrV ''4'']),
      (''F'', [StrV ''4'', StrV ''3'', StrV ''2'', StrV ''1'']),
      (''M'', [StrV ''4'', StrV ''3'', StrV ''2'', StrV ''1'']),
      (''RFM_Score'', [IntV 9, IntV 8, IntV 7, IntV 6]),
      (''RFM_Segment'', [StrV ''144'', StrV ''233'', StrV ''322'', StrV ''411''])]"

definition scored4 :: frame where
  "scored4 =
     [(''id'', [IntV 4, IntV 3, IntV 2, IntV 1]),
      (''Recency'', [IntV 30, IntV 20, IntV 10, IntV 0]),
      (''Frequency'', [IntV 4, IntV 3, IntV 2, IntV 1]),
      (''Monetary'', [IntV 40, IntV 30, IntV 20, IntV 10]),
      (''R'', [StrV ''4'', StrV ''3'', StrV ''2'', StrV ''1'']),
      (''F'', [StrV ''1'', StrV ''2'', StrV ''3'', StrV ''4'']),
      (''M'', [StrV ''1'', StrV ''2'', StrV ''3'', StrV ''4'']),
      (''RFM_Score'', [IntV 6, IntV 7, IntV 8, IntV 9]),
      (''RFM_Segment'', [StrV ''411'', StrV ''322'', StrV ''233'', StrV ''144''])]"

text \<open>Twenty customers, ten of them with the same metrics.\<close>

definition metrics20 :: frame where
  "metrics20 =
     [(''id'', map IntV [1..20]),
      (''Recency'', map IntV ([1, 2, 3, 4, 5] @ replicate 10 10 @ [20, 21, 22, 23, 24])),
      (''Frequency'', map IntV ([1, 2, 3, 4, 5] @ replicate 10 10 @ [20, 21, 22, 23, 24])),
      (''Monetary'', map IntV ([1, 2, 3, 4, 5] @ replicate 10 10 @ [20, 21, 22, 23, 24]))]"

definition encoded20 :: frame where
  "encoded20 =
     metrics20 @
     [(''R'', map StrV (replicate 5 ''1'' @ replicate 10 ''2'' @ replicate 5 ''4'')),
      (''F'', map StrV (replicate 5 ''4'' @ replicate 10 ''3'' @ replicate 5 ''1'')),
      (''M'', map StrV (replicate 5 ''4'' @ replicate 10 ''3'' @ replicate 5 ''1''))]"

definition scored20_data :: frame where
  "scored20_data =
     encoded20 @
     [(''RFM_Score'', map IntV (replicate 5 9 @ replicate 10 8 @ replicate 5 6)),
      (''RFM_Segment'',
         map StrV (replicate 5 ''144'' @ replicate 10 ''233'' @ replicate 5 ''411''))]"

definition scored20 :: frame where
  "scored20 =
     take_rows [19, 18, 17, 16, 15, 11, 14, 13, 12, 10, 9, 8, 7, 6, 5, 1, 4, 3, 2, 0]
       scored20_data"

definition resorted20 :: frame where
  "resorted20 =
     take_rows [19, 18, 17, 16, 15, 5, 6, 7, 8, 9, 10, 12, 13, 14, 11, 1, 4, 3, 2, 0]
       scored20_data"

definition metrics8 :: frame where
  "metrics8 =
     [(''Recency'', map IntV [1, 1, 1, 1, 1, 2, 3, 4]),
      (''Frequency'', map IntV [1, 2, 3, 4, 5, 6, 7, 8]),
      (''Monetary'', map IntV [1, 2, 3, 4, 5, 6, 7, 8])]"

section \<open>Basic facts\<close>

subsection \<open>64-bit sums\<close>


subsection \<open>Traversals\<close>

lemma traverse_map_map:
  "(\<And>x. x \<in> set xs \<Longrightarrow> f (r x) = Inr (g x)) \<Longrightarrow> traverse f (map r xs) = Inr (map g xs)"
  by (induction xs) simp_all



subsection \<open>Frames and the store\<close>

lemma map_of_row:
  "map_of (map (\<lambda>(name, c). (name, c ! i)) df) name = map_option (\<lambda>c. c ! i) (map_of df name)"
  by (induction df) auto

lemma nrows_of_column:
  "wf_frame df \<Longrightarrow> map_of df name = Some c \<Longrightarrow> length c = nrows df"
  by (auto simp: wf_frame_def dest: map_of_SomeD)

lemma setitem_same:
  "data < length h \<Longrightarrow> map_of (setitem h data name c ! data) name = Some c"
  by (simp add: setitem_def update_conv')

section \<open>The segment classifier\<close>

lemma naming_IntV:
  "map_of df ''RFM_Score'' = Some (IntV s) \<Longrightarrow> naming df = Inr (StrV (segment_label s))"
  by (simp add: naming_def segment_label_def)

lemma segment_label_cases:
  "segment_label s \<in> {''Can't Loose Them'', ''Champions'', ''Loyal/Commited'', ''Potential'',
       ''Promising'', ''Requires Attention'', ''Demands Activation''}"
  "segment_label s = ''Can't Loose Them'' \<longleftrightarrow> s \<ge> 9"
  "segment_label s = ''Champions'' \<longleftrightarrow> s = 8"
  "segment_label s = ''Loyal/Commited'' \<longleftrightarrow> s = 7"
  "segment_label s = ''Potential'' \<longleftrightarrow> s = 6"
  "segment_label s = ''Promising'' \<longleftrightarrow> s = 5"
  "segment_label s = ''Requires Attention'' \<longleftrightarrow> s = 4"
  "segment_label s = ''Demands Activation'' \<longleftrightarrow> s < 4"
  by (auto simp: segment_label_def)

lemma give_names_value:
  assumes wf: "wf_frame (h ! data)"
    and sc: "map_of (h ! data) ''RFM_Score'' = Some (map IntV scores)"
  shows "give_names_to_segments h data =
           Inr (setitem h data ''Segment_Name'' (map (\<lambda>s. StrV (segment_label s)) scores), data)"
proof -
  have n: "nrows (h ! data) = length scores"
    using nrows_of_column [OF wf sc] by simp
  have "traverse naming (iterrows (h ! data)) =
          Inr (map (\<lambda>i. StrV (segment_label (scores ! i))) [0..<length scores])"
    unfolding iterrows_def n
    by (rule traverse_map_map) (simp add: naming_IntV map_of_row sc)
  moreover have "map (\<lambda>i. StrV (segment_label (scores ! i))) [0..<length scores]
                 = map (\<lambda>s. StrV (segment_label s)) scores"
    by (rule nth_equalityI) simp_all
  ultimately show ?thesis
    by (simp add: give_names_to_segments_def)
qed

text \<open>
  Claim C1. On a table whose \<open>RFM_Score\<close> column holds integers, \<open>give_names_to_segments\<close>
  succeeds and gives every row exactly one of the seven labels, chosen by the row's score
  alone: "Can't Loose Them" iff the score is at least 9, "Champions" iff it is 8,
  "Loyal/Commited" iff 7, "Potential" iff 6, "Promising" iff 5, "Requires Attention" iff 4
  and "Demands Activation" iff it is below 4. Rows with the same score get the same name.
\<close>

theorem give_names_to_segments_by_score:
  assumes "data < length h"
    and "wf_frame (h ! data)"
    and "map_of (h ! data) ''RFM_Score'' = Some (map IntV scores)"
  shows "\<exists>h' names.
           give_names_to_segments h data = Inr (h', data)
         \<and> map_of (h' ! data) ''Segment_Name'' = Some (map StrV names)
         \<and> length names = length scores
         \<and> (\<forall>i < length scores.
               names ! i \<in> {''Can't Loose Them'', ''Champions'', ''Loyal/Commited'', ''Potential'',
                            ''Promising'', ''Requires Attention'', ''Demands Activation''}
             \<and> (names ! i = ''Can't Loose Them'' \<longleftrightarrow> scores ! i \<ge> 9)
             \<and> (names ! i = ''Champions'' \<longleftrightarrow> scores ! i = 8)
             \<and> (names ! i = ''Loyal/Commited'' \<longleftrightarrow> scores ! i = 7)
             \<and> (names ! i = ''Potential'' \<longleftrightarrow> scores ! i = 6)
             \<and> (names ! i = ''Promising'' \<longleftrightarrow> scores ! i = 5)
             \<and> (names ! i = ''Requires Attention'' \<longleftrightarrow> scores ! i = 4)
             \<and> (names ! i = ''Demands Activation'' \<longleftrightarrow> scores ! i < 4))
         \<and> (\<forall>i < length scores. \<forall>j < length scores.
               scores ! i = scores ! j \<longrightarrow> names ! i = names ! j)"
proof -
  let ?names = "map segment_label scores"
  have run: "give_names_to_segments h data =
               Inr (setitem h data ''Segment_Name'' (map StrV ?names), data)"
    using give_names_value [OF assms(2,3)] by (simp add: comp_def)
  have col: "map_of (setitem h data ''Segment_Name'' (map StrV ?names) ! data) ''Segment_Name''
               = Some (map StrV ?names)"
    using assms(1) by (rule setitem_same)
  show ?thesis
    apply (rule exI [of _ "setitem h data ''Segment_Name'' (map StrV ?names)"])
    apply (rule exI [of _ ?names])
    using run col segment_label_cases by simp
qed

theorem give_names_to_segments_by_score_witness:
  "(0::nat) < length [[(''RFM_Score'', [IntV 9, IntV 8, IntV 3])]]
   \<and> wf_frame ([[(''RFM_Score'', [IntV 9, IntV 8, IntV 3])]] ! 0)
   \<and> map_of ([[(''RFM_Score'', [IntV 9, IntV 8, IntV 3])]] ! 0) ''RFM_Score''
       = Some (map IntV [9, 8, 3])
   \<and> (\<exists>h' names.
         give_names_to_segments [[(''RFM_Score'', [IntV 9, IntV 8, IntV 3])]] 0 = Inr (h', 0)
       \<and> map_of (h' ! 0) ''Segment_Name'' = Some (map StrV names)
       \<and> length names = length [9, 8, 3 :: int]
       \<and> (\<forall>i < length [9, 8, 3 :: int].
             names ! i \<in> {''Can't Loose Them'', ''Champions'', ''Loyal/Commited'', ''Potential'',
                          ''Promising'', ''Requires Attention'', ''Demands Activation''}
           \<and> (names ! i = ''Can't Loose Them'' \<longleftrightarrow> [9, 8, 3 :: int] ! i \<ge> 9)
           \<and> (names ! i = ''Champions'' \<longleftrightarrow> [9, 8, 3 :: int] ! i = 8)
           \<and> (names ! i = ''Loyal/Commited'' \<longleftrightarrow> [9, 8, 3 :: int] ! i = 7)
           \<and> (names ! i = ''Potential'' \<longleftrightarrow> [9, 8, 3 :: int] ! i = 6)
           \<and> (names ! i = ''Promising'' \<longleftrightarrow> [9, 8, 3 :: int] ! i = 5)
           \<and> (names ! i = ''Requires Attention'' \<longleftrightarrow> [9, 8, 3 :: int] ! i = 4)
           \<and> (names ! i = ''Demands Activation'' \<longleftrightarrow> [9, 8, 3 :: int] ! i < 4))
       \<and> (\<forall>i < length [9, 8, 3 :: int]. \<forall>j < length [9, 8, 3 :: int].
             [9, 8, 3 :: int] ! i = [9, 8, 3 :: int] ! j \<longrightarrow> names ! i = names ! j))"
proof -
  let ?h = "[[(''RFM_Score'', [IntV 9, IntV 8, IntV 3])]]"
  have a: "(0::nat) < length ?h" by simp
  have b: "wf_frame (?h ! 0)" by (simp add: wf_frame_def nrows_def)
  have c: "map_of (?h ! 0) ''RFM_Score'' = Some (map IntV [9, 8, 3])" by simp
  show ?thesis
    by (intro conjI a b c give_names_to_segments_by_score [OF a b c])
qed

section \<open>The quantile cut\<close>

lemma bin_edges_eq:
  "bin_edges xs = [quantile4 xs 0, quantile4 xs 1, quantile4 xs 2, quantile4 xs 3, quantile4 xs 4]"
  by (simp add: bin_edges_def)

lemma quantile4_0: "quantile4 xs 0 = sort xs ! 0"
  by (simp add: quantile4_def)

lemma quantile4_4: "quantile4 xs 4 = sort xs ! (length xs - 1)"
  by (simp add: quantile4_def)

lemma sort_nth_bounds:
  assumes "x \<in> set xs"
  shows "sort xs ! 0 \<le> x" and "x \<le> sort xs ! (length xs - 1)"
proof -
  from assms have "x \<in> set (sort xs)" by simp
  then obtain j where j: "j < length (sort xs)" "sort xs ! j = x"
    by (metis in_set_conv_nth)
  have s: "sorted (sort xs)" by simp
  from sorted_nth_mono [OF s, of 0 j] j show "sort xs ! 0 \<le> x" by simp
  from sorted_nth_mono [OF s, of j "length xs - 1"] j show "x \<le> sort xs ! (length xs - 1)"
    by simp
qed

lemma quantile4_bounds:
  assumes ne: "xs \<noteq> []" and k: "k \<le> 4"
  shows "sort xs ! 0 \<le> quantile4 xs k" and "quantile4 xs k \<le> sort xs ! (length xs - 1)"
proof -
  let ?s = "sort xs"
  let ?n = "length xs"
  define p where "p = k * (?n - 1)"
  define lo where "lo = p div 4"
  define fr where "fr = p mod 4"
  have s: "sorted ?s" by simp
  have len: "length ?s = ?n" by simp
  have n: "0 < ?n" using ne by simp
  have p_le: "p \<le> 4 * (?n - 1)" unfolding p_def using k by simp
  have lo_le: "lo \<le> ?n - 1" unfolding lo_def using p_le by simp
  have q: "quantile4 xs k =
             (if fr = 0 then ?s ! lo else ?s ! lo + (?s ! (lo + 1) - ?s ! lo) * (of_nat fr / 4))"
    by (simp add: quantile4_def Let_def p_def lo_def fr_def)
  have lo_lt: "lo < ?n" using lo_le n by arith
  have lo_b: "?s ! 0 \<le> ?s ! lo" "?s ! lo \<le> ?s ! (?n - 1)"
    using sorted_nth_mono [OF s, of 0 lo] sorted_nth_mono [OF s, of lo "?n - 1"] lo_le lo_lt n
    by simp_all
  show "?s ! 0 \<le> quantile4 xs k" and "quantile4 xs k \<le> ?s ! (?n - 1)"
  proof -
    consider (z) "fr = 0" | (nz) "fr \<noteq> 0" by blast
    then have "?s ! 0 \<le> quantile4 xs k \<and> quantile4 xs k \<le> ?s ! (?n - 1)"
    proof cases
      case z
      then show ?thesis using q lo_b by simp
    next
      case nz
      have "p = 4 * lo + fr" unfolding lo_def fr_def by simp
      with p_le nz have lo1: "lo + 1 \<le> ?n - 1" by simp
      have fr4: "fr < 4" unfolding fr_def by simp
      have step: "?s ! lo \<le> ?s ! (lo + 1)"
        using sorted_nth_mono [OF s, of lo "lo + 1"] lo1 n by simp
      have up: "?s ! (lo + 1) \<le> ?s ! (?n - 1)"
        using sorted_nth_mono [OF s, of "lo + 1" "?n - 1"] lo1 n by simp
      define d where "d = ?s ! (lo + 1) - ?s ! lo"
      define t :: rat where "t = of_nat fr / 4"
      have d0: "0 \<le> d" unfolding d_def using step by simp
      have t0: "0 \<le> t" unfolding t_def by simp
      have t1: "t \<le> 1" unfolding t_def using fr4 by simp
      have "0 \<le> d * t" using d0 t0 by simp
      moreover have "d * t \<le> d" using d0 t1 by (simp add: mult_left_le)
      moreover have "quantile4 xs k = ?s ! lo + d * t"
        using q nz by (simp add: d_def t_def)
      ultimately have "?s ! lo \<le> quantile4 xs k" "quantile4 xs k \<le> ?s ! (lo + 1)"
        by (simp_all add: d_def)
      then show ?thesis using lo_b up by linarith
    qed
    then show "?s ! 0 \<le> quantile4 xs k" and "quantile4 xs k \<le> ?s ! (?n - 1)" by simp_all
  qed
qed

lemma bin_id_range:
  assumes "x \<in> set xs"
  shows "1 \<le> bin_id (bin_edges xs) x" and "bin_id (bin_edges xs) x \<le> 4"
proof -
  have lo: "quantile4 xs 0 \<le> x" and hi: "x \<le> quantile4 xs 4"
    using sort_nth_bounds [OF assms] by (simp_all add: quantile4_0 quantile4_4)
  show "1 \<le> bin_id (bin_edges xs) x"
    using lo by (auto simp: bin_id_def bin_edges_eq searchsorted_left_def)
  show "bin_id (bin_edges xs) x \<le> 4"
    using hi by (auto simp: bin_id_def bin_edges_eq searchsorted_left_def)
qed

lemma bin_id_min:
  "bin_id (bin_edges xs) (sort xs ! 0) = 1"
  by (simp add: bin_id_def bin_edges_eq quantile4_0)

lemma bin_id_max:
  assumes ne: "xs \<noteq> []" and d: "distinct (bin_edges xs)"
  shows "bin_id (bin_edges xs) (sort xs ! (length xs - 1)) = 4"
proof -
  let ?m = "sort xs ! (length xs - 1)"
  have m: "quantile4 xs 4 = ?m" by (rule quantile4_4)
  have le: "\<And>k. k \<le> 4 \<Longrightarrow> quantile4 xs k \<le> ?m"
    using quantile4_bounds(2) [OF ne] by simp
  have "quantile4 xs 0 < ?m" "quantile4 xs 1 < ?m" "quantile4 xs 2 < ?m" "quantile4 xs 3 < ?m"
    using d le [of 0] le [of 1] le [of 2] le [of 3] m
    by (auto simp: bin_edges_eq less_le)
  then show ?thesis
    by (simp add: bin_id_def bin_edges_eq searchsorted_left_def m)
qed

lemma traverse_Inr_map:
  "(\<And>x. x \<in> set xs \<Longrightarrow> f x = Inr (g x)) \<Longrightarrow> traverse f xs = Inr (map g xs)"
  using traverse_map_map [of xs f "\<lambda>x. x" g] by simp

lemma sort_nth_0_least:
  assumes "x \<in> set xs" and "\<forall>y \<in> set xs. x \<le> y"
  shows "sort xs ! 0 = x"
proof -
  have "xs \<noteq> []" using assms(1) by auto
  then have "sort xs ! 0 \<in> set (sort xs)" by (intro nth_mem) simp
  then have "x \<le> sort xs ! 0" using assms(2) by simp
  with sort_nth_bounds(1) [OF assms(1)] show ?thesis by simp
qed

lemma sort_nth_last_greatest:
  assumes "x \<in> set xs" and "\<forall>y \<in> set xs. y \<le> x"
  shows "sort xs ! (length xs - 1) = x"
proof -
  have "xs \<noteq> []" using assms(1) by auto
  then have "sort xs ! (length xs - 1) \<in> set (sort xs)" by (intro nth_mem) simp
  then have "sort xs ! (length xs - 1) \<le> x" using assms(2) by simp
  with sort_nth_bounds(2) [OF assms(1)] show ?thesis by simp
qed

lemma numeric_ints: "numeric (map IntV vs) = Some (map of_int vs)"
  by (simp add: numeric_def comp_def)

lemma take_label_in_range:
  "1 \<le> i \<Longrightarrow> i \<le> length labels \<Longrightarrow> take_label labels i = Inr (StrV (labels ! (i - 1)))"
  by (auto simp: take_label_def)

lemma qcut_numeric:
  assumes "numeric x = Some xs" and "distinct labels" and "length labels = 4"
  shows "qcut x labels =
           (if \<not> exact_quantiles xs then Inl Unmodelled
            else if \<not> distinct (bin_edges xs) then Inl ValueError
            else Inr (map (\<lambda>v. StrV (labels ! (bin_id (bin_edges xs) v - 1))) xs))"
proof -
  have "traverse (\<lambda>v. take_label labels (bin_id (bin_edges xs) v)) xs =
          Inr (map (\<lambda>v. StrV (labels ! (bin_id (bin_edges xs) v - 1))) xs)"
  proof (rule traverse_Inr_map)
    fix v assume "v \<in> set xs"
    from bin_id_range [OF this] assms(3)
    show "take_label labels (bin_id (bin_edges xs) v) =
            Inr (StrV (labels ! (bin_id (bin_edges xs) v - 1)))"
      by (intro take_label_in_range) simp_all
  qed
  then show ?thesis
    using assms by (simp add: qcut_def Let_def bin_edges_eq)
qed

lemma qcut_ints_labels:
  assumes run: "qcut (map IntV vs) labels = Inr ls"
    and lab: "distinct labels" "length labels = 4"
  shows "length ls = length vs"
    and "\<forall>i < length vs. \<exists>k < 4. ls ! i = StrV (labels ! k)"
    and "\<forall>i < length vs. (\<forall>j < length vs. vs ! i \<le> vs ! j) \<longrightarrow> ls ! i = StrV (labels ! 0)"
    and "\<forall>i < length vs. (\<forall>j < length vs. vs ! j \<le> vs ! i) \<longrightarrow> ls ! i = StrV (labels ! 3)"
proof -
  let ?xs = "map of_int vs :: rat list"
  let ?b = "bin_edges ?xs"
  from run qcut_numeric [OF numeric_ints lab, of vs]
  have ex: "exact_quantiles ?xs" and d: "distinct ?b"
    and ls: "ls = map (\<lambda>v. StrV (labels ! (bin_id ?b v - 1))) ?xs"
    by (auto split: if_splits)
  from ex have ne: "?xs \<noteq> []" by (simp add: exact_quantiles_def)
  show "length ls = length vs" using ls by simp
  show "\<forall>i < length vs. \<exists>k < 4. ls ! i = StrV (labels ! k)"
  proof (intro allI impI)
    fix i assume i: "i < length vs"
    then have m: "?xs ! i \<in> set ?xs" by (intro nth_mem) simp
    have "1 \<le> bin_id ?b (?xs ! i)" "bin_id ?b (?xs ! i) \<le> 4"
      using bin_id_range [OF m] by simp_all
    then have "bin_id ?b (?xs ! i) - 1 < 4" by arith
    moreover have "ls ! i = StrV (labels ! (bin_id ?b (?xs ! i) - 1))"
      using ls i by simp
    ultimately show "\<exists>k < 4. ls ! i = StrV (labels ! k)" by blast
  qed
  show "\<forall>i < length vs. (\<forall>j < length vs. vs ! i \<le> vs ! j) \<longrightarrow> ls ! i = StrV (labels ! 0)"
  proof (intro allI impI)
    fix i assume i: "i < length vs" and least: "\<forall>j < length vs. vs ! i \<le> vs ! j"
    have m: "?xs ! i \<in> set ?xs" using i by (intro nth_mem) simp
    have "\<forall>y \<in> set ?xs. ?xs ! i \<le> y"
      using least i by (auto simp: in_set_conv_nth)
    then have "sort ?xs ! 0 = ?xs ! i" using m by (intro sort_nth_0_least)
    then have "bin_id ?b (?xs ! i) = 1" using bin_id_min [of ?xs] by simp
    then show "ls ! i = StrV (labels ! 0)" using ls i by simp
  qed
  show "\<forall>i < length vs. (\<forall>j < length vs. vs ! j \<le> vs ! i) \<longrightarrow> ls ! i = StrV (labels ! 3)"
  proof (intro allI impI)
    fix i assume i: "i < length vs" and greatest: "\<forall>j < length vs. vs ! j \<le> vs ! i"
    have m: "?xs ! i \<in> set ?xs" using i by (intro nth_mem) simp
    have "\<forall>y \<in> set ?xs. y \<le> ?xs ! i"
      using greatest i by (auto simp: in_set_conv_nth)
    then have "sort ?xs ! (length ?xs - 1) = ?xs ! i" using m by (intro sort_nth_last_greatest)
    then have "bin_id ?b (?xs ! i) = 4" using bin_id_max [OF ne d] by simp
    then show "ls ! i = StrV (labels ! 3)" using ls i by simp
  qed
qed

lemma setitem_other:
  "name' \<noteq> name \<Longrightarrow> map_of (setitem h data name c ! data) name' = map_of (h ! data) name'"
  by (cases "data < length h") (simp_all add: setitem_def update_conv' list_update_beyond)

lemma setitem_nth_other:
  "r \<noteq> data \<Longrightarrow> setitem h data name c ! r = h ! r"
  by (simp add: setitem_def)

lemma length_setitem: "length (setitem h data name c) = length h"
  by (simp add: setitem_def)

lemma getitem_Inr: "getitem df name = Inr c \<longleftrightarrow> map_of df name = Some c"
  by (simp add: getitem_def split: option.splits)

lemma getattr_Inr: "getattr df name = Inr c \<longleftrightarrow> map_of df name = Some c"
  by (simp add: getattr_def split: option.splits)

lemma sum_bind_Inr:
  "(case m of Inl e \<Rightarrow> Inl e | Inr v \<Rightarrow> k v) = Inr y \<longleftrightarrow> (\<exists>v. m = Inr v \<and> k v = Inr y)"
  by (cases m) simp_all

lemma assign_qcut_Inr:
  "assign_qcut h data target source labels = Inr h1 \<longleftrightarrow>
     (\<exists>c ls. map_of (h ! data) source = Some c \<and> qcut c labels = Inr ls
            \<and> h1 = setitem h data target ls)"
  by (auto simp: assign_qcut_def getitem_def split: option.splits sum.splits)

lemma scale_rfm_columns_Inr:
  assumes "scale_rfm_columns h data = Inr (h', r')"
  obtains rc fc mc r f m where
    "map_of (h ! data) ''Recency'' = Some rc" "qcut rc [''1'', ''2'', ''3'', ''4''] = Inr r"
    "map_of (h ! data) ''Frequency'' = Some fc" "qcut fc [''4'', ''3'', ''2'', ''1''] = Inr f"
    "map_of (h ! data) ''Monetary'' = Some mc" "qcut mc [''4'', ''3'', ''2'', ''1''] = Inr m"
    "h' = setitem (setitem (setitem h data ''R'' r) data ''F'' f) data ''M'' m" "r' = data"
proof -
  from assms obtain h1 h2 where
    s1: "assign_qcut h data ''R'' ''Recency'' [''1'', ''2'', ''3'', ''4''] = Inr h1" and
    s2: "assign_qcut h1 data ''F'' ''Frequency'' [''4'', ''3'', ''2'', ''1''] = Inr h2" and
    s3: "assign_qcut h2 data ''M'' ''Monetary'' [''4'', ''3'', ''2'', ''1''] = Inr h'" and
    r: "r' = data"
    unfolding scale_rfm_columns_def sum_bind_Inr by blast
  from s1 obtain rc r where 1: "map_of (h ! data) ''Recency'' = Some rc"
    "qcut rc [''1'', ''2'', ''3'', ''4''] = Inr r" "h1 = setitem h data ''R'' r"
    unfolding assign_qcut_Inr by blast
  from s2 obtain fc f where 2: "map_of (h1 ! data) ''Frequency'' = Some fc"
    "qcut fc [''4'', ''3'', ''2'', ''1''] = Inr f" "h2 = setitem h1 data ''F'' f"
    unfolding assign_qcut_Inr by blast
  from s3 obtain mc m where 3: "map_of (h2 ! data) ''Monetary'' = Some mc"
    "qcut mc [''4'', ''3'', ''2'', ''1''] = Inr m" "h' = setitem h2 data ''M'' m"
    unfolding assign_qcut_Inr by blast
  have "map_of (h ! data) ''Frequency'' = Some fc"
    using 2(1) 1(3) by (simp add: setitem_other)
  moreover have "map_of (h ! data) ''Monetary'' = Some mc"
    using 3(1) 2(3) 1(3) by (simp add: setitem_other)
  ultimately show thesis
    using that 1 2 3 r by blast
qed


section \<open>The quartile encoder\<close>

lemma setitem_nth_same:
  "data < length h \<Longrightarrow> setitem h data name c ! data = AList.update name c (h ! data)"
  by (simp add: setitem_def)

lemma scale_rfm_columns_result_columns:
  assumes "data < length h"
  shows "map_of (setitem (setitem (setitem h data ''R'' r) data ''F'' f) data ''M'' m ! data)
           = (map_of (h ! data))(''R'' \<mapsto> r, ''F'' \<mapsto> f, ''M'' \<mapsto> m)"
  using assms by (simp add: setitem_nth_same length_setitem update_conv')

text \<open>
  Claim C2 (what the code does). On every table that \<open>scale_rfm_columns\<close> encodes, the
  customers with the smallest Recency, the most recent ones, get the R label "1", and
  the customers with the largest Recency get the R label "4": the labels
  \<^verbatim>\<open>['1', '2', '3', '4']\<close> are handed out in ascending bin order. The docstring of the
  function promises the opposite ("4 is the most recent").
\<close>

theorem scale_rfm_columns_recency_direction:
  assumes "data < length h"
    and "map_of (h ! data) ''Recency'' = Some (map IntV days)"
    and "scale_rfm_columns h data = Inr (h', r')"
  shows "\<exists>rl. map_of (h' ! r') ''R'' = Some rl \<and> length rl = length days
          \<and> (\<forall>i < length days. (\<forall>j < length days. days ! i \<le> days ! j) \<longrightarrow> rl ! i = StrV ''1'')
          \<and> (\<forall>i < length days. (\<forall>j < length days. days ! j \<le> days ! i) \<longrightarrow> rl ! i = StrV ''4'')"
proof -
  from assms(3) obtain rc fc mc r f m where
    rc: "map_of (h ! data) ''Recency'' = Some rc" and
    q: "qcut rc [''1'', ''2'', ''3'', ''4''] = Inr r" and
    h': "h' = setitem (setitem (setitem h data ''R'' r) data ''F'' f) data ''M'' m" and
    r': "r' = data"
    by (rule scale_rfm_columns_Inr)
  from rc assms(2) have "rc = map IntV days" by simp
  with q have q': "qcut (map IntV days) [''1'', ''2'', ''3'', ''4''] = Inr r" by simp
  have lab: "distinct [''1'', ''2'', ''3'', ''4'']" "length [''1'', ''2'', ''3'', ''4''] = 4"
    by simp_all
  have col: "map_of (h' ! r') ''R'' = Some r"
    unfolding h' r' scale_rfm_columns_result_columns [OF assms(1)] by simp
  from qcut_ints_labels(1,3,4) [OF q' lab] col show ?thesis by simp
qed

theorem scale_rfm_columns_recency_direction_witness:
  "(0::nat) < length [metrics4]
   \<and> map_of ([metrics4] ! 0) ''Recency'' = Some (map IntV [0, 10, 20, 30])
   \<and> scale_rfm_columns [metrics4] 0 = Inr ([encoded4], 0)
   \<and> map_of ([encoded4] ! 0) ''R'' = Some [StrV ''1'', StrV ''2'', StrV ''3'', StrV ''4'']
   \<and> (\<exists>rl. map_of ([encoded4] ! 0) ''R'' = Some rl \<and> length rl = length [0, 10, 20, 30 :: int]
          \<and> (\<forall>i < length [0, 10, 20, 30 :: int].
                (\<forall>j < length [0, 10, 20, 30 :: int].
                    [0, 10, 20, 30 :: int] ! i \<le> [0, 10, 20, 30 :: int] ! j)
                \<longrightarrow> rl ! i = StrV ''1'')
          \<and> (\<forall>i < length [0, 10, 20, 30 :: int].
                (\<forall>j < length [0, 10, 20, 30 :: int].
                    [0, 10, 20, 30 :: int] ! j \<le> [0, 10, 20, 30 :: int] ! i)
                \<longrightarrow> rl ! i = StrV ''4''))"
proof -
  have a: "(0::nat) < length [metrics4]" by simp
  have b: "map_of ([metrics4] ! 0) ''Recency'' = Some (map IntV [0, 10, 20, 30])"
    by (simp add: metrics4_def)
  have c: "scale_rfm_columns [metrics4] 0 = Inr ([encoded4], 0)" by code_simp
  have d: "map_of ([encoded4] ! 0) ''R'' = Some [StrV ''1'', StrV ''2'', StrV ''3'', StrV ''4'']"
    by (simp add: encoded4_def)
  show ?thesis
    by (intro conjI a b c d scale_rfm_columns_recency_direction [OF a b c])
qed

text \<open>
  Claim C3 (what the code does). On every table that \<open>scale_rfm_columns\<close> encodes, the
  customers with the largest Frequency get the F label "1" and those with the smallest
  Frequency the F label "4", and likewise for Monetary and M: the labels
  \<^verbatim>\<open>['4', '3', '2', '1']\<close> are handed out in ascending bin order. The docstring of the
  function promises the opposite ("4 is the more frequent", "4 is the most money").
\<close>

theorem scale_rfm_columns_frequency_monetary_direction:
  assumes "data < length h"
    and "map_of (h ! data) ''Frequency'' = Some (map IntV freq)"
    and "map_of (h ! data) ''Monetary'' = Some (map IntV money)"
    and "scale_rfm_columns h data = Inr (h', r')"
  shows "\<exists>fl ml. map_of (h' ! r') ''F'' = Some fl \<and> length fl = length freq
          \<and> map_of (h' ! r') ''M'' = Some ml \<and> length ml = length money
          \<and> (\<forall>i < length freq. (\<forall>j < length freq. freq ! j \<le> freq ! i) \<longrightarrow> fl ! i = StrV ''1'')
          \<and> (\<forall>i < length freq. (\<forall>j < length freq. freq ! i \<le> freq ! j) \<longrightarrow> fl ! i = StrV ''4'')
          \<and> (\<forall>i < length money. (\<forall>j < length money. money ! j \<le> money ! i) \<longrightarrow> ml ! i = StrV ''1'')
          \<and> (\<forall>i < length money. (\<forall>j < length money. money ! i \<le> money ! j) \<longrightarrow> ml ! i = StrV ''4'')"
proof -
  from assms(4) obtain rc fc mc r f m where
    fc: "map_of (h ! data) ''Frequency'' = Some fc" and
    qf: "qcut fc [''4'', ''3'', ''2'', ''1''] = Inr f" and
    mc: "map_of (h ! data) ''Monetary'' = Some mc" and
    qm: "qcut mc [''4'', ''3'', ''2'', ''1''] = Inr m" and
    h': "h' = setitem (setitem (setitem h data ''R'' r) data ''F'' f) data ''M'' m" and
    r': "r' = data"
    by (rule scale_rfm_columns_Inr)
  from fc assms(2) qf have qf': "qcut (map IntV freq) [''4'', ''3'', ''2'', ''1''] = Inr f" by simp
  from mc assms(3) qm have qm': "qcut (map IntV money) [''4'', ''3'', ''2'', ''1''] = Inr m" by simp
  have lab: "distinct [''4'', ''3'', ''2'', ''1'']" "length [''4'', ''3'', ''2'', ''1''] = 4"
    by simp_all
  have colf: "map_of (h' ! r') ''F'' = Some f" and colm: "map_of (h' ! r') ''M'' = Some m"
    unfolding h' r' scale_rfm_columns_result_columns [OF assms(1)] by simp_all
  from qcut_ints_labels(1,3,4) [OF qf' lab] qcut_ints_labels(1,3,4) [OF qm' lab] colf colm
  show ?thesis by simp
qed

theorem scale_rfm_columns_frequency_monetary_direction_witness:
  "(0::nat) < length [metrics4]
   \<and> map_of ([metrics4] ! 0) ''Frequency'' = Some (map IntV [1, 2, 3, 4])
   \<and> map_of ([metrics4] ! 0) ''Monetary'' = Some (map IntV [10, 20, 30, 40])
   \<and> scale_rfm_columns [metrics4] 0 = Inr ([encoded4], 0)
   \<and> map_of ([encoded4] ! 0) ''F'' = Some [StrV ''4'', StrV ''3'', StrV ''2'', StrV ''1'']
   \<and> map_of ([encoded4] ! 0) ''M'' = Some [StrV ''4'', StrV ''3'', StrV ''2'', StrV ''1'']
   \<and> (\<exists>fl ml. map_of ([encoded4] ! 0) ''F'' = Some fl \<and> length fl = length [1, 2, 3, 4 :: int]
          \<and> map_of ([encoded4] ! 0) ''M'' = Some ml \<and> length ml = length [10, 20, 30, 40 :: int]
          \<and> (\<forall>i < length [1, 2, 3, 4 :: int].
                (\<forall>j < length [1, 2, 3, 4 :: int]. [1, 2, 3, 4 :: int] ! j \<le> [1, 2, 3, 4 :: int] ! i)
                \<longrightarrow> fl ! i = StrV ''1'')
          \<and> (\<forall>i < length [1, 2, 3, 4 :: int].
                (\<forall>j < length [1, 2, 3, 4 :: int]. [1, 2, 3, 4 :: int] ! i \<le> [1, 2, 3, 4 :: int] ! j)
                \<longrightarrow> fl ! i = StrV ''4'')
          \<and> (\<forall>i < length [10, 20, 30, 40 :: int].
                (\<forall>j < length [10, 20, 30, 40 :: int].
                    [10, 20, 30, 40 :: int] ! j \<le> [10, 20, 30, 40 :: int] ! i)
                \<longrightarrow> ml ! i = StrV ''1'')
          \<and> (\<forall>i < length [10, 20, 30, 40 :: int].
                (\<forall>j < length [10, 20, 30, 40 :: int].
                    [10, 20, 30, 40 :: int] ! i \<le> [10, 20, 30, 40 :: int] ! j)
                \<longrightarrow> ml ! i = StrV ''4''))"
proof -
  have a: "(0::nat) < length [metrics4]" by simp
  have b: "map_of ([metrics4] ! 0) ''Frequency'' = Some (map IntV [1, 2, 3, 4])"
    by (simp add: metrics4_def)
  have b': "map_of ([metrics4] ! 0) ''Monetary'' = Some (map IntV [10, 20, 30, 40])"
    by (simp add: metrics4_def)
  have c: "scale_rfm_columns [metrics4] 0 = Inr ([encoded4], 0)" by code_simp
  have d: "map_of ([encoded4] ! 0) ''F'' = Some [StrV ''4'', StrV ''3'', StrV ''2'', StrV ''1'']"
    by (simp add: encoded4_def)
  have d': "map_of ([encoded4] ! 0) ''M'' = Some [StrV ''4'', StrV ''3'', StrV ''2'', StrV ''1'']"
    by (simp add: encoded4_def)
  show ?thesis
    by (intro conjI a b b' c d d' scale_rfm_columns_frequency_monetary_direction [OF a b b' c])
qed

lemma assign_qcut_exact:
  assumes "map_of (h ! data) source = Some (map IntV vs)"
    and "exact_quantiles (map of_int vs)"
    and "distinct labels" and "length labels = 4"
  shows "assign_qcut h data target source labels =
           (if \<not> distinct (bin_edges (map of_int vs)) then Inl ValueError
            else Inr (setitem h data target
                   (map (\<lambda>v. StrV (labels ! (bin_id (bin_edges (map of_int vs)) v - 1)))
                      (map of_int vs))))"
  using assms(1,2) qcut_numeric [OF numeric_ints assms(3,4), of vs]
  by (simp add: assign_qcut_def getitem_def)

lemma exact_quantiles_ints:
  assumes "vs \<noteq> []" and "\<forall>v \<in> set vs. \<bar>v\<bar> \<le> 2 ^ 48"
  shows "exact_quantiles (map of_int vs)"
proof -
  have "\<bar>(of_int v :: rat)\<bar> \<le> 2 ^ 48" if "v \<in> set vs" for v
  proof -
    from that assms(2) have "\<bar>v\<bar> \<le> 2 ^ 48" by simp
    then have "(of_int \<bar>v\<bar> :: rat) \<le> of_int (2 ^ 48)" by (simp only: of_int_le_iff)
    then show ?thesis by simp
  qed
  with assms(1) show ?thesis by (auto simp: exact_quantiles_def)
qed

lemma constant_column_edges:
  assumes "\<forall>x \<in> set xs. \<forall>y \<in> set xs. x = y" and "xs \<noteq> []"
  shows "\<not> distinct (bin_edges xs)"
proof -
  from assms(2)
  have a: "sort xs ! 0 \<in> set (sort xs)" and b: "sort xs ! (length xs - 1) \<in> set (sort xs)"
    by (simp_all del: set_sort)
  then have "sort xs ! 0 = sort xs ! (length xs - 1)"
    using assms(1) by simp
  then have "quantile4 xs 0 = quantile4 xs 4"
    by (simp add: quantile4_0 quantile4_4)
  then show ?thesis by (simp add: bin_edges_eq)
qed

lemma constant_ints_edges:
  assumes "\<forall>x \<in> set vs. \<forall>y \<in> set vs. x = y" and "vs \<noteq> []"
  shows "\<not> distinct (bin_edges (map of_int vs))"
  using assms by (intro constant_column_edges) auto

text \<open>
  Claim C8 (amended). On a table whose Recency, Frequency and Monetary columns are not
  empty and hold integers of magnitude at most \<open>2 ^ 48\<close>, \<open>scale_rfm_columns\<close> fails
  exactly when, for one of the three columns, two of its five quartile edges coincide;
  the exception is then pandas' ValueError. A column with a single distinct value, in
  any of the three places, always fails. The number of distinct values alone does not
  decide it.
\<close>

theorem scale_rfm_columns_fails_iff:
  assumes "map_of (h ! data) ''Recency'' = Some (map IntV rs)"
    and "map_of (h ! data) ''Frequency'' = Some (map IntV fs)"
    and "map_of (h ! data) ''Monetary'' = Some (map IntV ms)"
    and "rs \<noteq> []" and "fs \<noteq> []" and "ms \<noteq> []"
    and "list_all (\<lambda>v. \<bar>v\<bar> \<le> 2 ^ 48) (rs @ fs @ ms)"
  shows "((\<exists>e. scale_rfm_columns h data = Inl e) \<longleftrightarrow>
            \<not> distinct (bin_edges (map of_int rs)) \<or>
            \<not> distinct (bin_edges (map of_int fs)) \<or>
            \<not> distinct (bin_edges (map of_int ms)))
       \<and> (\<forall>e. scale_rfm_columns h data = Inl e \<longrightarrow> e = ValueError)
       \<and> ((\<forall>x \<in> set rs. \<forall>y \<in> set rs. x = y) \<or> (\<forall>x \<in> set fs. \<forall>y \<in> set fs. x = y)
            \<or> (\<forall>x \<in> set ms. \<forall>y \<in> set ms. x = y)
          \<longrightarrow> scale_rfm_columns h data = Inl ValueError)"
proof -
  have l1: "distinct [''1'', ''2'', ''3'', ''4'']" "length [''1'', ''2'', ''3'', ''4''] = 4"
    and l2: "distinct [''4'', ''3'', ''2'', ''1'']" "length [''4'', ''3'', ''2'', ''1''] = 4"
    by simp_all
  have er: "exact_quantiles (map of_int rs)" and ef: "exact_quantiles (map of_int fs)"
    and em: "exact_quantiles (map of_int ms)"
    using assms(4-7) by (simp_all add: exact_quantiles_ints list_all_iff)
  note s1 = assign_qcut_exact [OF assms(1) er l1, of "''R''"]
  have f1: "\<And>c. map_of (setitem h data ''R'' c ! data) ''Frequency'' = Some (map IntV fs)"
    using assms(2) by (simp add: setitem_other)
  note s2 = assign_qcut_exact [OF f1 ef l2, of _ "''F''"]
  have m1: "\<And>c d. map_of (setitem (setitem h data ''R'' c) data ''F'' d ! data) ''Monetary''
                 = Some (map IntV ms)"
    using assms(3) by (simp add: setitem_other)
  note s3 = assign_qcut_exact [OF m1 em l2, of _ _ "''M''"]
  have run: "scale_rfm_columns h data =
          (if \<not> distinct (bin_edges (map of_int rs)) then Inl ValueError
           else if \<not> distinct (bin_edges (map of_int fs)) then Inl ValueError
           else if \<not> distinct (bin_edges (map of_int ms)) then Inl ValueError
           else Inr (setitem (setitem (setitem h data ''R''
                  (map (\<lambda>v. StrV ([''1'', ''2'', ''3'', ''4'']
                                      ! (bin_id (bin_edges (map of_int rs)) v - 1)))
                     (map of_int rs)))
                  data ''F''
                  (map (\<lambda>v. StrV ([''4'', ''3'', ''2'', ''1'']
                                      ! (bin_id (bin_edges (map of_int fs)) v - 1)))
                     (map of_int fs)))
                  data ''M''
                  (map (\<lambda>v. StrV ([''4'', ''3'', ''2'', ''1'']
                                      ! (bin_id (bin_edges (map of_int ms)) v - 1)))
                     (map of_int ms)),
                 data))"
    unfolding scale_rfm_columns_def s1
    by (simp only: s2 s3 sum.case if_distrib [of "case_sum _ _"] if_True if_False split: if_split)
  have c: "(\<forall>x \<in> set rs. \<forall>y \<in> set rs. x = y) \<Longrightarrow> \<not> distinct (bin_edges (map of_int rs))"
    "(\<forall>x \<in> set fs. \<forall>y \<in> set fs. x = y) \<Longrightarrow> \<not> distinct (bin_edges (map of_int fs))"
    "(\<forall>x \<in> set ms. \<forall>y \<in> set ms. x = y) \<Longrightarrow> \<not> distinct (bin_edges (map of_int ms))"
    using assms(4-6) by (simp_all add: constant_ints_edges)
  have 1: "(\<exists>e. scale_rfm_columns h data = Inl e) \<longleftrightarrow>
            \<not> distinct (bin_edges (map of_int rs)) \<or>
            \<not> distinct (bin_edges (map of_int fs)) \<or>
            \<not> distinct (bin_edges (map of_int ms))"
    unfolding run by simp
  have 2: "\<forall>e. scale_rfm_columns h data = Inl e \<longrightarrow> e = ValueError"
    unfolding run by simp
  have 3: "(\<forall>x \<in> set rs. \<forall>y \<in> set rs. x = y) \<or> (\<forall>x \<in> set fs. \<forall>y \<in> set fs. x = y)
            \<or> (\<forall>x \<in> set ms. \<forall>y \<in> set ms. x = y)
          \<longrightarrow> scale_rfm_columns h data = Inl ValueError"
    unfolding run using c by auto
  from 1 2 3 show ?thesis by (intro conjI)
qed

theorem scale_rfm_columns_fails_iff_witness:
  "map_of ([metrics8] ! 0) ''Recency'' = Some (map IntV [1, 1, 1, 1, 1, 2, 3, 4])
   \<and> map_of ([metrics8] ! 0) ''Frequency'' = Some (map IntV [1, 2, 3, 4, 5, 6, 7, 8])
   \<and> map_of ([metrics8] ! 0) ''Monetary'' = Some (map IntV [1, 2, 3, 4, 5, 6, 7, 8])
   \<and> [1, 1, 1, 1, 1, 2, 3, 4 :: int] \<noteq> [] \<and> [1, 2, 3, 4, 5, 6, 7, 8 :: int] \<noteq> []
   \<and> list_all (\<lambda>v. \<bar>v\<bar> \<le> 2 ^ 48)
        ([1, 1, 1, 1, 1, 2, 3, 4 :: int] @ [1, 2, 3, 4, 5, 6, 7, 8] @ [1, 2, 3, 4, 5, 6, 7, 8])
   \<and> bin_edges (map of_int [1, 1, 1, 1, 1, 2, 3, 4]) = [1, 1, 1, 9 / 4, 4]
   \<and> (\<exists>e. scale_rfm_columns [metrics8] 0 = Inl e)
   \<and> scale_rfm_columns [metrics8] 0 = Inl ValueError"
proof -
  have r: "map_of ([metrics8] ! 0) ''Recency'' = Some (map IntV [1, 1, 1, 1, 1, 2, 3, 4])"
    and f: "map_of ([metrics8] ! 0) ''Frequency'' = Some (map IntV [1, 2, 3, 4, 5, 6, 7, 8])"
    and m: "map_of ([metrics8] ! 0) ''Monetary'' = Some (map IntV [1, 2, 3, 4, 5, 6, 7, 8])"
    by (simp_all add: metrics8_def)
  have nr: "[1, 1, 1, 1, 1, 2, 3, 4 :: int] \<noteq> []" and nf: "[1, 2, 3, 4, 5, 6, 7, 8 :: int] \<noteq> []"
    by simp_all
  have b: "list_all (\<lambda>v. \<bar>v\<bar> \<le> 2 ^ 48)
        ([1, 1, 1, 1, 1, 2, 3, 4 :: int] @ [1, 2, 3, 4, 5, 6, 7, 8] @ [1, 2, 3, 4, 5, 6, 7, 8])"
    by simp
  have e: "bin_edges (map of_int [1, 1, 1, 1, 1, 2, 3, 4]) = [1, 1, 1, 9 / 4, 4]" by code_simp
  then have nd: "\<not> distinct (bin_edges (map of_int [1, 1, 1, 1, 1, 2, 3, 4]))" by simp
  note t = scale_rfm_columns_fails_iff [OF r f m nr nf nf b]
  from t nd have ex: "\<exists>e. scale_rfm_columns [metrics8] 0 = Inl e" by blast
  with t have v: "scale_rfm_columns [metrics8] 0 = Inl ValueError" by blast
  show ?thesis
    by (intro conjI r f m nr nf b e ex v)
qed

theorem scale_rfm_columns_three_values_counterexample:
  "scale_rfm_columns
     [[(''id'', [StrV ''a'', StrV ''b'', StrV ''c'']),
       (''Recency'', [IntV 1, IntV 2, IntV 3]),
       (''Frequency'', [IntV 1, IntV 2, IntV 3]),
       (''Monetary'', [IntV 1, IntV 2, IntV 3])]] 0
   = Inr ([[(''id'', [StrV ''a'', StrV ''b'', StrV ''c'']),
            (''Recency'', [IntV 1, IntV 2, IntV 3]),
            (''Frequency'', [IntV 1, IntV 2, IntV 3]),
            (''Monetary'', [IntV 1, IntV 2, IntV 3]),
            (''R'', [StrV ''1'', StrV ''2'', StrV ''4'']),
            (''F'', [StrV ''4'', StrV ''3'', StrV ''1'']),
            (''M'', [StrV ''4'', StrV ''3'', StrV ''1''])]], 0)"
  by code_simp

section \<open>Sorting by a column\<close>

lemma map_of_take_rows:
  "map_of (take_rows idx df) name = map_option (\<lambda>c. map (\<lambda>i. c ! i) idx) (map_of df name)"
  by (induction df) (auto simp: take_rows_def)

lemma take_rows_id:
  assumes "\<forall>(name, c) \<in> set df. length c = n"
  shows "take_rows [0..<n] df = df"
proof -
  have "\<And>p. p \<in> set df \<Longrightarrow> (case p of (name, c) \<Rightarrow> (name, map (\<lambda>i. c ! i) [0..<n])) = p"
    using assms by (auto simp: map_nth)
  then show ?thesis unfolding take_rows_def by (simp add: map_idI)
qed

lemma take_rows_lengths:
  "\<forall>(name, c) \<in> set (take_rows idx df). length c = length idx"
  by (auto simp: take_rows_def)

lemma same_kind_subset:
  "same_kind k \<Longrightarrow> set k' \<subseteq> set k \<Longrightarrow> same_kind k'"
  by (auto simp: same_kind_def)

lemma StrV_le: "StrV a \<le> StrV b \<longleftrightarrow> a \<le> b"
  by (simp add: less_eq_cell_def)

lemma sorted_map_StrV: "sorted (map StrV xs) \<longleftrightarrow> sorted xs"
  by (induction xs) (auto simp: StrV_le)

lemma row_perm_length: "row_perm n p \<Longrightarrow> length p = n"
  unfolding row_perm_def using distinct_card [of p] by simp

lemma row_perm_mset: "row_perm n p \<Longrightarrow> mset p = mset [0..<n]"
  unfolding row_perm_def
  using set_eq_iff_mset_eq_distinct [of p "[0..<n]"] by simp

lemma row_perm_keys_mset:
  assumes "row_perm (length k) p"
  shows "mset (map (\<lambda>i. k ! i) p) = mset k"
proof -
  have "mset (map (\<lambda>i. k ! i) p) = image_mset (\<lambda>i. k ! i) (mset p)" by simp
  also have "\<dots> = image_mset (\<lambda>i. k ! i) (mset [0..<length k])"
    using row_perm_mset [OF assms] by simp
  also have "\<dots> = mset (map (\<lambda>i. k ! i) [0..<length k])" by simp
  also have "\<dots> = mset k" by (simp add: map_nth)
  finally show ?thesis .
qed

lemma nargsort_desc:
  assumes "valid_argsort a"
  obtains idx where "nargsort a k False = Inr idx" "row_perm (length k) idx"
    "sorted (rev (map (\<lambda>i. k ! i) idx))"
proof -
  let ?n = "length k"
  from assms obtain p where p: "a (rev k) = Inr p" "distinct p" "set p = {0..<?n}"
    "sorted (map (\<lambda>i. rev k ! i) p)"
    unfolding valid_argsort_def by (metis length_rev)
  let ?idx = "rev (map (\<lambda>j. rev [0..<?n] ! j) p)"
  have run: "nargsort a k False = Inr ?idx"
    using p(1) by (simp add: nargsort_def)
  have nth: "\<And>j. j \<in> set p \<Longrightarrow> rev [0..<?n] ! j = ?n - Suc j"
    using p(3) by (simp add: rev_nth)
  have idx_eq: "?idx = rev (map (\<lambda>j. ?n - Suc j) p)"
    using nth by simp
  have inj: "inj_on (\<lambda>j. ?n - Suc j) (set p)"
    unfolding p(3)
  proof (rule inj_onI)
    fix x y assume a: "x \<in> {0..<?n}" "y \<in> {0..<?n}" "?n - Suc x = ?n - Suc y"
    then have "x < ?n" "y < ?n" by simp_all
    with a(3) show "x = y" by arith
  qed
  have "distinct ?idx"
    unfolding idx_eq using p(2) inj by (simp add: distinct_map)
  moreover have "set ?idx = {0..<?n}"
  proof -
    have "set ?idx = (\<lambda>j. ?n - Suc j) ` {0..<?n}"
      unfolding idx_eq using p(3) by simp
    also have "\<dots> = {0..<?n}"
    proof (intro equalityI subsetI)
      fix x assume "x \<in> (\<lambda>j. ?n - Suc j) ` {0..<?n}"
      then show "x \<in> {0..<?n}" by auto
    next
      fix x assume x: "x \<in> {0..<?n}"
      then have "x = ?n - Suc (?n - Suc x)" "?n - Suc x \<in> {0..<?n}" by auto
      then show "x \<in> (\<lambda>j. ?n - Suc j) ` {0..<?n}" by (rule image_eqI)
    qed
    finally show ?thesis .
  qed
  ultimately have perm: "row_perm ?n ?idx" by (simp add: row_perm_def)
  have "map (\<lambda>i. k ! i) (map (\<lambda>j. ?n - Suc j) p) = map (\<lambda>i. rev k ! i) p"
    using p(3) by (simp add: rev_nth)
  then have "rev (map (\<lambda>i. k ! i) ?idx) = map (\<lambda>i. rev k ! i) p"
    unfolding idx_eq by (simp add: rev_map)
  with p(4) have "sorted (rev (map (\<lambda>i. k ! i) ?idx))" by simp
  with that run perm show thesis by blast
qed

lemma sorted_desc_perm_keys:
  assumes "sorted (rev k)" and "row_perm (length k) idx"
    and "sorted (rev (map (\<lambda>i. k ! i) idx))"
  shows "map (\<lambda>i. k ! i) idx = k"
proof -
  let ?A = "map (\<lambda>i. k ! i) idx"
  have "mset (rev ?A) = mset (rev k)"
    using row_perm_keys_mset [OF assms(2)] by simp
  from properties_for_sort [OF this assms(3)] have "sort (rev k) = rev ?A" .
  moreover have "sort (rev k) = rev k" using assms(1) by (rule sorted_sort_id)
  ultimately have "rev ?A = rev k" by simp
  then show ?thesis by simp
qed

lemma distinct_keys_perm_id:
  assumes "distinct k" and "row_perm (length k) idx" and "map (\<lambda>i. k ! i) idx = k"
  shows "idx = [0..<length k]"
proof (rule nth_equalityI)
  show "length idx = length [0..<length k]"
    using row_perm_length [OF assms(2)] by simp
next
  fix i assume "i < length idx"
  then have i: "i < length k" using row_perm_length [OF assms(2)] by simp
  then have "idx ! i \<in> set idx" using row_perm_length [OF assms(2)] by simp
  then have j: "idx ! i < length k" using assms(2) by (simp add: row_perm_def)
  have "k ! (idx ! i) = k ! i"
    using arg_cong [OF assms(3), of "\<lambda>xs. xs ! i"] i row_perm_length [OF assms(2)] by simp
  then have "idx ! i = i"
    using assms(1) i j by (simp add: nth_eq_iff_index_eq)
  then show "idx ! i = [0..<length k] ! i" using i by simp
qed

lemma valid_stable_argsort: "valid_argsort stable_argsort"
proof -
  have "distinct (map snd (sort_key fst (zip k [0..<length k])))
      \<and> set (map snd (sort_key fst (zip k [0..<length k]))) = {0..<length k}
      \<and> sorted (map (\<lambda>i. k ! i) (map snd (sort_key fst (zip k [0..<length k]))))" for k :: column
  proof -
    let ?ps = "sort_key fst (zip k [0..<length k])"
    have z: "map snd (zip k [0..<length k]) = [0..<length k]"
      by (simp add: map_snd_zip)
    have "mset (map snd ?ps) = mset (map snd (zip k [0..<length k]))"
      by (simp only: mset_map mset_sort)
    then have m: "mset (map snd ?ps) = mset [0..<length k]"
      unfolding z .
    have d: "distinct (map snd ?ps)"
      using m by (metis distinct_upt mset_eq_imp_distinct_iff)
    have s: "set (map snd ?ps) = {0..<length k}"
      using m by (metis mset_eq_setD set_upt)
    have e: "map (\<lambda>i. k ! i) (map snd ?ps) = map fst ?ps"
      by (auto simp: in_set_zip)
    have "sorted (map fst ?ps)" by simp
    then have "sorted (map (\<lambda>i. k ! i) (map snd ?ps))" unfolding e .
    with d s show ?thesis by blast
  qed
  then show ?thesis by (simp add: valid_argsort_def stable_argsort_def)
qed

lemma stable_nargsort_sorted_id:
  assumes "sorted (rev k)"
  shows "nargsort stable_argsort k False = Inr [0..<length k]"
proof -
  let ?ps = "zip (rev k) [0..<length k]"
  have "map fst ?ps = rev k" by simp
  with assms have "sorted (map fst ?ps)" by simp
  then have "sort_key fst ?ps = ?ps" by (rule sort_key_id_if_sorted)
  then have "stable_argsort (rev k) = Inr [0..<length k]"
    by (simp add: stable_argsort_def map_snd_zip)
  moreover have "map (\<lambda>j. rev [0..<length k] ! j) [0..<length k] = rev [0..<length k]"
    using map_nth [of "rev [0..<length k]"] by simp
  ultimately show ?thesis
    by (simp add: nargsort_def)
qed

lemma sort_values_desc_run:
  assumes "valid_argsort a" and "map_of df name = Some k" and "same_kind k"
  obtains idx where "sort_values a df name False = Inr (take_rows idx df)"
    "row_perm (length k) idx" "sorted (rev (map (\<lambda>i. k ! i) idx))"
proof -
  from nargsort_desc [OF assms(1), of k] obtain idx where
    "nargsort a k False = Inr idx" "row_perm (length k) idx"
    "sorted (rev (map (\<lambda>i. k ! i) idx))"
    by blast
  with that assms(2,3) show thesis by (simp add: sort_values_def)
qed

lemma sort_values_desc_Inr:
  assumes "valid_argsort a" and "sort_values a df name False = Inr s"
  obtains k idx where "map_of df name = Some k" "same_kind k" "s = take_rows idx df"
    "row_perm (length k) idx" "sorted (rev (map (\<lambda>i. k ! i) idx))"
proof -
  from assms(2) obtain k where k: "map_of df name = Some k" "same_kind k"
    by (auto simp: sort_values_def split: option.splits if_splits)
  from sort_values_desc_run [OF assms(1) k] obtain idx where
    r: "sort_values a df name False = Inr (take_rows idx df)" and
    i: "row_perm (length k) idx" "sorted (rev (map (\<lambda>i. k ! i) idx))"
    by blast
  from r assms(2) have "s = take_rows idx df" by simp
  from that [OF k this i] show thesis .
qed

lemma nrows_take_rows: "df \<noteq> [] \<Longrightarrow> nrows (take_rows idx df) = length idx"
  by (cases df) (auto simp: nrows_def take_rows_def)

text \<open>Sorting a second time.\<close>

lemma sort_values_twice:
  assumes v: "valid_argsort a" and s: "sort_values a df name False = Inr s"
  obtains p k' where "sort_values a s name False = Inr (take_rows p s)"
    "row_perm (nrows s) p" "map_of s name = Some k'" "length k' = nrows s"
    "sorted (rev k')" "map_of (take_rows p s) name = Some k'"
    "distinct k' \<Longrightarrow> take_rows p s = s"
    "(\<And>k. a k = stable_argsort k) \<Longrightarrow> take_rows p s = s"
proof -
  from sort_values_desc_Inr [OF v s] obtain k idx where
    k: "map_of df name = Some k" "same_kind k" and s_eq: "s = take_rows idx df" and
    idx: "row_perm (length k) idx" "sorted (rev (map (\<lambda>i. k ! i) idx))"
    by blast
  let ?k' = "map (\<lambda>i. k ! i) idx"
  have ne: "df \<noteq> []" using k(1) by auto
  have n: "nrows s = length idx" unfolding s_eq using ne by (rule nrows_take_rows)
  have lk': "length ?k' = nrows s" using n by simp
  have k': "map_of s name = Some ?k'"
    by (simp add: s_eq map_of_take_rows k)
  have "set ?k' \<subseteq> set k"
    using idx(1) by (auto simp: row_perm_def)
  then have sk: "same_kind ?k'" using k(2) by (rule same_kind_subset [rotated])
  from sort_values_desc_run [OF v k' sk] obtain p where
    run: "sort_values a s name False = Inr (take_rows p s)" and
    p: "row_perm (length ?k') p" "sorted (rev (map (\<lambda>i. ?k' ! i) p))"
    by blast
  have p': "row_perm (nrows s) p" using p(1) n by simp
  have keys: "map (\<lambda>i. ?k' ! i) p = ?k'"
    using idx(2) p by (rule sorted_desc_perm_keys)
  have col: "map_of (take_rows p s) name = Some ?k'"
    by (simp add: map_of_take_rows k' keys)
  have cols: "\<forall>(name, c) \<in> set s. length c = length ?k'"
    unfolding s_eq using take_rows_lengths [of idx df] by simp
  have d: "take_rows p s = s" if "distinct ?k'"
  proof -
    from distinct_keys_perm_id [OF that p(1) keys] have "p = [0..<length ?k']" .
    then show ?thesis using take_rows_id [OF cols] by simp
  qed
  have st: "take_rows p s = s" if "\<And>k. a k = stable_argsort k"
  proof -
    have "a = stable_argsort" using that by (rule ext)
    with stable_nargsort_sorted_id [OF idx(2)] k' sk
    have "sort_values a s name False = Inr (take_rows [0..<length ?k'] s)"
      by (simp add: sort_values_def)
    with run have "take_rows p s = take_rows [0..<length ?k'] s" by simp
    then show ?thesis using take_rows_id [OF cols] by simp
  qed
  from that [OF run p' k' lk' idx(2) col] d st show thesis by blast
qed

section \<open>The score aggregator\<close>










lemma assign_segment_Inr:
  assumes "assign_segment h data = Inr h2"
  obtains strs where "h2 = setitem h data ''RFM_Segment'' (map StrV strs)"
proof (cases "three_columns astype_str (h ! data)")
  case (Inl e)
  with assms show thesis by (simp add: assign_segment_def)
next
  case (Inr t)
  obtain rs fs ms where "t = (rs, fs, ms)" by (cases t)
  with Inr assms
  have "h2 = setitem h data ''RFM_Segment'' (map StrV (map2 (@) (map2 (@) rs fs) ms))"
    by (simp add: assign_segment_def)
  then show thesis by (rule that)
qed

lemma assign_score_length:
  assumes "assign_score h data = Inr h1"
  shows "length h1 = length h"
proof (cases "three_columns astype_int (h ! data)")
  case (Inl e)
  with assms show ?thesis by (simp add: assign_score_def)
next
  case (Inr t)
  obtain r f m where "t = (r, f, m)" by (cases t)
  with Inr assms show ?thesis
    by (auto simp add: assign_score_def length_setitem)
qed


lemma rfm_scores_Inr:
  assumes "rfm_scores a h data = Inr (h', r')"
  obtains h1 h2 strs where "assign_score h data = Inr h1"
    "h2 = setitem h1 data ''RFM_Segment'' (map StrV strs)"
    "sort_values a (h2 ! data) ''RFM_Segment'' False = Inr (h' ! r')"
    "h' = h2 @ [h' ! r']" "r' = length h2"
proof -
  from assms obtain h1 h2 s where 1: "assign_score h data = Inr h1"
    and 2: "assign_segment h1 data = Inr h2"
    and 3: "sort_values a (h2 ! data) ''RFM_Segment'' False = Inr s"
    and res: "h' = h2 @ [s]" "r' = length h2"
    unfolding rfm_scores_def sum_bind_Inr by blast
  from 2 obtain strs where h2: "h2 = setitem h1 data ''RFM_Segment'' (map StrV strs)"
    by (rule assign_segment_Inr)
  have "h' ! r' = s" using res by simp
  with that 1 h2 3 res show thesis by simp
qed

text \<open>
  Claim C6. Whatever sort numpy runs, the table that \<open>rfm_scores\<close> returns is sorted by
  its \<open>RFM_Segment\<close> column in descending order, and the order is the lexicographic order
  of strings (by character code, a proper prefix first), not the order of the numbers
  that the digits spell.
\<close>

theorem rfm_scores_sorted_descending:
  assumes "valid_argsort a"
    and "data < length h"
    and "rfm_scores a h data = Inr (h', r')"
  shows "\<exists>segs. map_of (h' ! r') ''RFM_Segment'' = Some (map StrV segs) \<and> sorted (rev segs)"
proof -
  from assms(3) obtain h1 h2 strs where 1: "assign_score h data = Inr h1"
    and h2: "h2 = setitem h1 data ''RFM_Segment'' (map StrV strs)"
    and 3: "sort_values a (h2 ! data) ''RFM_Segment'' False = Inr (h' ! r')"
    by (rule rfm_scores_Inr)
  have "data < length h1" using assms(2) assign_score_length [OF 1] by simp
  then have k: "map_of (h2 ! data) ''RFM_Segment'' = Some (map StrV strs)"
    unfolding h2 by (rule setitem_same)
  from sort_values_desc_Inr [OF assms(1) 3] k obtain idx where
    s_eq: "h' ! r' = take_rows idx (h2 ! data)" and
    idx: "row_perm (length (map StrV strs)) idx"
      "sorted (rev (map (\<lambda>i. map StrV strs ! i) idx))"
    by (metis option.inject)
  let ?segs = "map (\<lambda>i. strs ! i) idx"
  have eq: "map (\<lambda>i. map StrV strs ! i) idx = map StrV ?segs"
    using idx(1) by (simp add: row_perm_def)
  then have col: "map_of (h' ! r') ''RFM_Segment'' = Some (map StrV ?segs)"
    unfolding s_eq map_of_take_rows k by simp
  have "sorted (rev (map StrV ?segs))"
    using idx(2) unfolding eq .
  then have "sorted (map StrV (rev ?segs))"
    unfolding rev_map .
  then have "sorted (rev ?segs)"
    unfolding sorted_map_StrV .
  with col show ?thesis by blast
qed

theorem rfm_scores_sorted_descending_witness:
  "valid_argsort stable_argsort
   \<and> (0::nat) < length [encoded4]
   \<and> rfm_scores stable_argsort [encoded4] 0 = Inr ([scored4_data, scored4], 1)
   \<and> (\<exists>segs. map_of ([scored4_data, scored4] ! 1) ''RFM_Segment'' = Some (map StrV segs)
          \<and> sorted (rev segs))"
proof -
  have a: "(0::nat) < length [encoded4]" by simp
  have b: "rfm_scores stable_argsort [encoded4] 0 = Inr ([scored4_data, scored4], 1)"
    by code_simp
  show ?thesis
    by (intro conjI valid_stable_argsort a b
          rfm_scores_sorted_descending [OF valid_stable_argsort a b])
qed

text \<open>
  Claim C10 (amended). Whatever sort numpy runs, \<open>top_customers\<close> applied to the table
  that \<open>rfm_scores\<close> returned succeeds and returns the rows of that table in some
  permutation, with the same \<open>RFM_Segment\<close> column, so that only rows with equal
  \<open>RFM_Segment\<close> can have changed places. The rows come back in the same order when no two
  rows share an \<open>RFM_Segment\<close> value, and when the sort is stable.
\<close>

theorem top_customers_after_rfm_scores:
  assumes "valid_argsort a"
    and "rfm_scores a h data = Inr (h1, r1)"
  shows "\<exists>h2 r2 p segs.
           top_customers a h1 r1 = Inr (h2, r2)
         \<and> h2 ! r2 = take_rows p (h1 ! r1)
         \<and> row_perm (nrows (h1 ! r1)) p
         \<and> map_of (h1 ! r1) ''RFM_Segment'' = Some segs
         \<and> map_of (h2 ! r2) ''RFM_Segment'' = Some segs
         \<and> length segs = nrows (h1 ! r1)
         \<and> sorted (rev segs)
         \<and> (distinct segs \<longrightarrow> h2 ! r2 = h1 ! r1)
         \<and> ((\<forall>k. a k = stable_argsort k) \<longrightarrow> h2 ! r2 = h1 ! r1)"
proof -
  from assms(2) obtain h0 :: heap
    where "sort_values a (h0 ! data) ''RFM_Segment'' False = Inr (h1 ! r1)"
    by (rule rfm_scores_Inr)
  from sort_values_twice [OF assms(1) this] obtain p segs where
    run: "sort_values a (h1 ! r1) ''RFM_Segment'' False = Inr (take_rows p (h1 ! r1))" and
    p: "row_perm (nrows (h1 ! r1)) p" and
    k: "map_of (h1 ! r1) ''RFM_Segment'' = Some segs" "length segs = nrows (h1 ! r1)"
       "sorted (rev segs)" "map_of (take_rows p (h1 ! r1)) ''RFM_Segment'' = Some segs" and
    d: "distinct segs \<Longrightarrow> take_rows p (h1 ! r1) = h1 ! r1" and
    st: "(\<And>k. a k = stable_argsort k) \<Longrightarrow> take_rows p (h1 ! r1) = h1 ! r1"
    by blast
  let ?s = "take_rows p (h1 ! r1)"
  have t: "top_customers a h1 r1 = Inr (h1 @ [?s], length h1)"
    using run by (simp add: top_customers_def)
  have sel: "(h1 @ [?s]) ! length h1 = ?s" by simp
  show ?thesis
    apply (rule exI [of _ "h1 @ [?s]"], rule exI [of _ "length h1"])
    apply (rule exI [of _ p], rule exI [of _ segs])
    unfolding sel using t p k d st by blast
qed

theorem top_customers_after_rfm_scores_witness:
  "valid_argsort stable_argsort
   \<and> rfm_scores stable_argsort [encoded4] 0 = Inr ([scored4_data, scored4], 1)
   \<and> (\<exists>h2 r2 p segs.
           top_customers stable_argsort [scored4_data, scored4] 1 = Inr (h2, r2)
         \<and> h2 ! r2 = take_rows p ([scored4_data, scored4] ! 1)
         \<and> row_perm (nrows ([scored4_data, scored4] ! 1)) p
         \<and> map_of ([scored4_data, scored4] ! 1) ''RFM_Segment'' = Some segs
         \<and> map_of (h2 ! r2) ''RFM_Segment'' = Some segs
         \<and> length segs = nrows ([scored4_data, scored4] ! 1)
         \<and> sorted (rev segs)
         \<and> (distinct segs \<longrightarrow> h2 ! r2 = [scored4_data, scored4] ! 1)
         \<and> ((\<forall>k. stable_argsort k = stable_argsort k)
              \<longrightarrow> h2 ! r2 = [scored4_data, scored4] ! 1))"
proof -
  have b: "rfm_scores stable_argsort [encoded4] 0 = Inr ([scored4_data, scored4], 1)"
    by code_simp
  show ?thesis
    by (intro conjI valid_stable_argsort b
          top_customers_after_rfm_scores [OF valid_stable_argsort b])
qed

text \<open>
  With the sort that numpy runs by default, for either value of its cut-off, on the
  twenty customers of \<open>metrics20\<close>: \<open>rfm_scores\<close> returns the customers with segment
  "233" in the order 12, 15, 14, 13, 11, 10, 9, 8, 7, 6, and \<open>top_customers\<close> returns them
  in the order 6, 7, 8, 9, 10, 11, 13, 14, 15, 12.
\<close>

theorem top_customers_reorders_ties_counterexample:
  "scale_rfm_columns [metrics20] 0 = Inr ([encoded20], 0)
   \<and> rfm_scores (npy_argsort 15) [encoded20] 0 = Inr ([scored20_data, scored20], 1)
   \<and> top_customers (npy_argsort 15) [scored20_data, scored20] 1
         = Inr ([scored20_data, scored20, resorted20], 2)
   \<and> rfm_scores (npy_argsort 16) [encoded20] 0 = Inr ([scored20_data, scored20], 1)
   \<and> top_customers (npy_argsort 16) [scored20_data, scored20] 1
         = Inr ([scored20_data, scored20, resorted20], 2)
   \<and> map_of scored20 ''id''
         = Some (map IntV [20, 19, 18, 17, 16, 12, 15, 14, 13, 11, 10, 9, 8, 7, 6, 2, 5, 4, 3, 1])
   \<and> map_of resorted20 ''id''
         = Some (map IntV [20, 19, 18, 17, 16, 6, 7, 8, 9, 10, 11, 13, 14, 15, 12, 2, 5, 4, 3, 1])
   \<and> [scored20_data, scored20, resorted20] ! 2 \<noteq> [scored20_data, scored20] ! 1"
  by code_simp




section \<open>The metric deriver\<close>

subsection \<open>Groups and their aggregates\<close>






lemma group_of_rows:
  assumes "length c = length idcol"
  shows "group_of idcol c k = map (\<lambda>i. c ! i) (rows_of idcol k)"
proof -
  have "zip idcol c = map (\<lambda>i. (idcol ! i, c ! i)) [0..<length idcol]"
    using assms by (intro nth_equalityI) simp_all
  then show ?thesis
    by (simp add: group_of_def rows_of_def filter_map comp_def)
qed

lemma rows_of_props:
  "distinct (rows_of idcol k)"
  "set (rows_of idcol k) = {i. i < length idcol \<and> idcol ! i = k}"
  "k \<in> set idcol \<Longrightarrow> rows_of idcol k \<noteq> []"
proof -
  show "distinct (rows_of idcol k)" by (simp add: rows_of_def)
  show s: "set (rows_of idcol k) = {i. i < length idcol \<and> idcol ! i = k}"
    by (auto simp: rows_of_def)
  assume "k \<in> set idcol"
  then obtain i where "i < length idcol" "idcol ! i = k" by (auto simp: in_set_conv_nth)
  then have "i \<in> set (rows_of idcol k)" unfolding s by simp
  then show "rows_of idcol k \<noteq> []" by auto
qed

lemma group_keys_props:
  "distinct (group_keys idcol)" "set (group_keys idcol) = set idcol" "sorted (group_keys idcol)"
  by (simp_all add: group_keys_def)





lemma spec_distinct:
  assumes "distinct [id', dates, revenue]"
  shows "AList.update revenue f3 (AList.update id' f2 (AList.update dates f1 []))
           = [(dates, f1), (id', f2), (revenue, f3)]"
  using assms by auto

lemma map_of_Some_fst: "map_of df name = Some c \<Longrightarrow> name \<in> set (map fst df)"
  by (metis map_of_eq_None_iff option.distinct(1) set_map)





subsection \<open>Errors\<close>

lemma traverse_Inl:
  "traverse f xs = Inl e \<Longrightarrow> \<exists>x \<in> set xs. f x = Inl e"
  by (induction xs) (auto split: sum.splits)

lemma traverse_first_Inl: "f x = Inl e \<Longrightarrow> traverse f (x # xs) = Inl e"
  by simp

lemma fold_max_in: "fold max xs (x :: cell) \<in> set (x # xs)"
proof -
  have "fold max xs x = Max (set (x # xs))" by (rule Max.set_eq_fold [symmetric])
  then show ?thesis using Max_in [of "set (x # xs)"] by simp
qed

lemma series_max_cases:
  "series_max c = Inl TypeError \<or> series_max c = Inr None \<and> c = []
     \<or> (\<exists>m \<in> set c. series_max c = Inr (Some m) \<and> same_kind c)"
proof (cases c)
  case Nil
  then show ?thesis by (simp add: series_max_def)
next
  case (Cons x xs)
  then show ?thesis
    using fold_max_in [of xs x] by (auto simp: series_max_def)
qed

lemma days_between_errors:
  "days_between a b = Inl e \<Longrightarrow> e \<in> {TypeError, AttributeError, Unmodelled}"
  by (auto simp: days_between_def split: option.splits cell.splits if_splits)

lemma agg_recency_errors:
  "agg_recency md c = Inl e \<Longrightarrow> e \<in> {TypeError, AttributeError, Unmodelled}"
proof (cases "series_max c")
  case (Inl e')
  with series_max_cases [of c] have "e' = TypeError" by auto
  moreover assume "agg_recency md c = Inl e"
  ultimately show ?thesis using Inl by (simp add: agg_recency_def)
next
  case (Inr latest)
  moreover assume "agg_recency md c = Inl e"
  ultimately have "days_between md latest = Inl e" by (simp add: agg_recency_def)
  then show ?thesis by (rule days_between_errors)
qed

lemma agg_sum_errors: "agg_sum c = Inl e \<Longrightarrow> e \<in> {TypeError, AttributeError, Unmodelled}"
  by (simp add: agg_sum_def series_sum_def split: if_splits)

lemma agg_len_errors: "agg_len c = Inl e \<Longrightarrow> e \<in> {TypeError, AttributeError, Unmodelled}"
  by (simp add: agg_len_def)

lemma update_subset: "set (AList.update k v al) \<subseteq> insert (k, v) (set al)"
  by (induction al) auto

lemma update_keys: "fst ` set (AList.update k v al) = insert k (fst ` set al)"
  by (induction al) auto

lemma spec_entries:
  "set (AList.update revenue agg_sum (AList.update id' agg_len
          (AList.update dates (agg_recency md) [])))
     \<subseteq> {(revenue, agg_sum), (id', agg_len), (dates, agg_recency md)}"
  using update_subset [of revenue agg_sum "AList.update id' agg_len
          (AList.update dates (agg_recency md) [])"]
    update_subset [of id' agg_len "AList.update dates (agg_recency md) []"]
  by auto

lemma spec_keys:
  "fst ` set (AList.update revenue agg_sum (AList.update id' agg_len
          (AList.update dates (agg_recency md) [])))
     = {id', dates, revenue}"
  unfolding update_keys by auto

lemma agg_column_errors:
  assumes "agg_column df idcol (name, f) = Inl e" and "name \<in> set (map fst df)"
    and "\<And>c e. f c = Inl e \<Longrightarrow> e \<in> {TypeError, AttributeError, Unmodelled}"
  shows "e \<in> {TypeError, AttributeError, Unmodelled}"
proof -
  from assms(2) obtain c where c: "map_of df name = Some c"
    by (metis map_of_eq_None_iff not_Some_eq set_map)
  with assms(1) have "traverse (\<lambda>k. f (group_of idcol c k)) (group_keys idcol) = Inl e"
    by (simp add: agg_column_def getitem_def)
  from traverse_Inl [OF this] assms(3) show ?thesis by blast
qed

lemma groupby_agg_errors:
  assumes "groupby_agg df idcol
             (AList.update revenue agg_sum (AList.update id' agg_len
               (AList.update dates (agg_recency md) []))) = Inl e"
    and "{id', dates, revenue} \<subseteq> set (map fst df)"
  shows "e \<in> {TypeError, AttributeError, Unmodelled}"
proof -
  let ?spec = "AList.update revenue agg_sum (AList.update id' agg_len
               (AList.update dates (agg_recency md) []))"
  from assms have "traverse (agg_column df idcol) ?spec = Inl e"
    by (simp add: groupby_agg_def spec_keys del: AList.update.simps)
  from traverse_Inl [OF this] obtain sp where sp: "sp \<in> set ?spec" "agg_column df idcol sp = Inl e"
    by blast
  from sp(1) spec_entries [of revenue id' dates md]
  consider "sp = (revenue, agg_sum)" | "sp = (id', agg_len)" | "sp = (dates, agg_recency md)"
    by blast
  then show ?thesis
  proof cases
    case 1
    with sp(2) assms(2) show ?thesis
      by (intro agg_column_errors [of df idcol revenue agg_sum e]) (auto dest: agg_sum_errors)
  next
    case 2
    with sp(2) assms(2) show ?thesis
      by (intro agg_column_errors [of df idcol id' agg_len e]) (auto dest: agg_len_errors)
  next
    case 3
    with sp(2) assms(2) show ?thesis
      by (intro agg_column_errors [of df idcol dates "agg_recency md" e])
         (auto dest: agg_recency_errors)
  qed
qed

lemma create_rfm_columns_missing:
  assumes "\<not> {id', dates, revenue} \<subseteq> set (map fst (h ! data))"
  shows "create_rfm_columns h data id' dates revenue = Inl KeyError
       \<or> create_rfm_columns h data id' dates revenue = Inl TypeError"
proof (cases "map_of (h ! data) dates")
  case None
  then show ?thesis by (simp add: create_rfm_columns_def getitem_def)
next
  case (Some dcol)
  note d = this
  show ?thesis
  proof (cases "series_max dcol")
    case (Inl e)
    with series_max_cases [of dcol] have "e = TypeError" by auto
    with d Inl show ?thesis by (simp add: create_rfm_columns_def getitem_def)
  next
    case (Inr md)
    show ?thesis
    proof (cases "map_of (h ! data) id'")
      case None
      with d Inr show ?thesis by (simp add: create_rfm_columns_def getitem_def)
    next
      case (Some idcol)
      have "groupby_agg (h ! data) idcol
             (AList.update revenue agg_sum (AList.update id' agg_len
               (AList.update dates (agg_recency md) []))) = Inl KeyError"
        using assms by (simp add: groupby_agg_def spec_keys del: AList.update.simps)
      with d Inr Some show ?thesis
        by (simp add: create_rfm_columns_def getitem_def del: AList.update.simps)
    qed
  qed
qed

lemma create_rfm_columns_dates_missing:
  "dates \<notin> set (map fst (h ! data)) \<Longrightarrow>
     create_rfm_columns h data id' dates revenue = Inl KeyError"
  by (simp add: create_rfm_columns_def getitem_def map_of_eq_None_iff [THEN iffD2])

lemma create_rfm_columns_present_errors:
  assumes "{id', dates, revenue} \<subseteq> set (map fst (h ! data))"
    and "create_rfm_columns h data id' dates revenue = Inl e"
  shows "e \<in> {TypeError, AttributeError, ValueError, Unmodelled}"
proof -
  from assms(1) obtain dcol idcol where d: "map_of (h ! data) dates = Some dcol"
    and i: "map_of (h ! data) id' = Some idcol"
    by (metis insert_subset map_of_eq_None_iff not_Some_eq set_map)
  show ?thesis
  proof (cases "series_max dcol")
    case (Inl e')
    with series_max_cases [of dcol] have "e' = TypeError" by auto
    with d Inl assms(2) show ?thesis by (simp add: create_rfm_columns_def getitem_def)
  next
    case (Inr md)
    show ?thesis
    proof (cases "groupby_agg (h ! data) idcol
             (AList.update revenue agg_sum (AList.update id' agg_len
               (AList.update dates (agg_recency md) [])))")
      case (Inl e')
      from groupby_agg_errors [OF this assms(1)]
      have "e' \<in> {TypeError, AttributeError, Unmodelled}" .
      moreover have "e = e'"
        using d i Inr Inl assms(2)
        by (simp add: create_rfm_columns_def getitem_def del: AList.update.simps)
      ultimately show ?thesis by blast
    next
      case (Inr cols)
      with d i \<open>series_max dcol = Inr md\<close> assms(2) show ?thesis
        by (auto simp add: create_rfm_columns_def getitem_def simp del: AList.update.simps
              split: if_splits)
    qed
  qed
qed

lemma same_kind_ints: "\<forall>c \<in> set dcol. is_IntV c \<Longrightarrow> same_kind dcol"
  unfolding same_kind_def
proof (intro ballI)
  fix x y assume "\<forall>c \<in> set dcol. is_IntV c" "x \<in> set dcol" "y \<in> set dcol"
  then have "is_IntV x" "is_IntV y" by simp_all
  then show "fst (cell_key x) = fst (cell_key y)" by (cases x; cases y) simp_all
qed

lemma same_kind_strs: "\<forall>c \<in> set dcol. is_StrV c \<Longrightarrow> same_kind dcol"
  unfolding same_kind_def
proof (intro ballI)
  fix x y assume "\<forall>c \<in> set dcol. is_StrV c" "x \<in> set dcol" "y \<in> set dcol"
  then have "is_StrV x" "is_StrV y" by simp_all
  then show "fst (cell_key x) = fst (cell_key y)" by (cases x; cases y) simp_all
qed

lemma days_between_ints:
  "is_IntV a \<Longrightarrow> is_IntV b \<Longrightarrow> days_between (Some a) (Some b) = Inl AttributeError"
  by (cases a; cases b) (simp_all add: days_between_def)

lemma days_between_strs:
  "is_StrV a \<Longrightarrow> is_StrV b \<Longrightarrow> days_between (Some a) (Some b) = Inl TypeError"
  by (cases a; cases b) (simp_all add: days_between_def)

text \<open>The aggregation of the first customer's dates fails when the difference of two
  values of the date column does.\<close>

lemma create_rfm_columns_days_error:
  assumes ic: "map_of (h ! data) id' = Some ids"
    and dc: "map_of (h ! data) dates = Some dcol"
    and rc: "revenue \<in> set (map fst (h ! data))"
    and len: "length dcol = length ids"
    and names: "distinct [id', dates, revenue]"
    and ne: "dcol \<noteq> []"
    and sk: "same_kind dcol"
    and err: "\<And>a b. a \<in> set dcol \<Longrightarrow> b \<in> set dcol \<Longrightarrow> days_between (Some a) (Some b) = Inl e"
  shows "create_rfm_columns h data id' dates revenue = Inl e"
proof -
  let ?df = "h ! data"
  have "series_max dcol \<noteq> Inl TypeError"
    using ne sk by (simp add: series_max_def)
  with series_max_cases [of dcol] ne
  obtain m where max: "m \<in> set dcol" "series_max dcol = Inr (Some m)"
    by blast
  have "ids \<noteq> []" using ne len by auto
  then have "group_keys ids \<noteq> []"
    using group_keys_props(2) [of ids] by (metis set_empty)
  then obtain k1 ks where keys: "group_keys ids = k1 # ks" by (cases "group_keys ids") auto
  then have k1: "k1 \<in> set ids"
    using group_keys_props(2) [of ids] by (metis list.set_intros(1))
  let ?g = "group_of ids dcol k1"
  have g: "?g = map (\<lambda>i. dcol ! i) (rows_of ids k1)"
    using len by (rule group_of_rows)
  have gne: "?g \<noteq> []" unfolding g using rows_of_props(3) [OF k1] by simp
  have gsub: "set ?g \<subseteq> set dcol"
  proof
    fix x assume "x \<in> set ?g"
    then obtain i where i: "i \<in> set (rows_of ids k1)" "x = dcol ! i"
      unfolding g by auto
    from i(1) have "i < length dcol"
      unfolding rows_of_props(2) using len by simp
    with i(2) show "x \<in> set dcol" by simp
  qed
  have "series_max ?g \<noteq> Inl TypeError"
    using gne same_kind_subset [OF sk gsub] by (simp add: series_max_def)
  with series_max_cases [of ?g] gne
  obtain gm where gm: "gm \<in> set ?g" "series_max ?g = Inr (Some gm)"
    by blast
  from gm(1) gsub have "gm \<in> set dcol" by blast
  from err [OF max(1) this] have e: "days_between (Some m) (Some gm) = Inl e" .
  have r: "agg_recency (Some m) ?g = Inl e"
    by (simp add: agg_recency_def gm(2) e)
  have col: "agg_column ?df ids (dates, agg_recency (Some m)) = Inl e"
    using dc r by (simp add: agg_column_def getitem_def keys)
  have present: "{id', dates, revenue} \<subseteq> set (map fst ?df)"
    using map_of_Some_fst [OF ic] map_of_Some_fst [OF dc] rc by simp
  have "groupby_agg ?df ids
          (AList.update revenue agg_sum (AList.update id' agg_len
            (AList.update dates (agg_recency (Some m)) []))) = Inl e"
    unfolding spec_distinct [OF names] groupby_agg_def
    using present col by simp
  then show "create_rfm_columns h data id' dates revenue = Inl e"
    using ic dc max(2)
    by (simp add: create_rfm_columns_def getitem_def del: AList.update.simps)
qed

text \<open>
  Claim C7 (amended). \<open>create_rfm_columns\<close> checks nothing itself and raises no error of
  its own; what fails is the library call that meets the bad input. When one of the three
  named columns is missing the call fails with a KeyError or a TypeError, and with a
  KeyError when it is the date column that is missing; a KeyError is raised only when
  one of the three columns is missing. Dates are not parsed: when the three columns are
  there under three distinct names and the table is not empty, a date column of strings
  fails with a TypeError and a date column of integers with an AttributeError.
\<close>

theorem create_rfm_columns_errors:
  "(\<not> {id', dates, revenue} \<subseteq> set (map fst (h ! data)) \<longrightarrow>
       create_rfm_columns h data id' dates revenue = Inl KeyError
     \<or> create_rfm_columns h data id' dates revenue = Inl TypeError)
 \<and> (dates \<notin> set (map fst (h ! data)) \<longrightarrow>
       create_rfm_columns h data id' dates revenue = Inl KeyError)
 \<and> (create_rfm_columns h data id' dates revenue = Inl KeyError \<longrightarrow>
       \<not> {id', dates, revenue} \<subseteq> set (map fst (h ! data)))
 \<and> (map_of (h ! data) id' = Some ids \<and> map_of (h ! data) dates = Some dcol
      \<and> revenue \<in> set (map fst (h ! data)) \<and> length dcol = length ids
      \<and> distinct [id', dates, revenue] \<and> dcol \<noteq> [] \<longrightarrow>
       (list_all is_StrV dcol \<longrightarrow>
          create_rfm_columns h data id' dates revenue = Inl TypeError)
     \<and> (list_all is_IntV dcol \<longrightarrow>
          create_rfm_columns h data id' dates revenue = Inl AttributeError))"
proof -
  have 1: "\<not> {id', dates, revenue} \<subseteq> set (map fst (h ! data)) \<longrightarrow>
       create_rfm_columns h data id' dates revenue = Inl KeyError
     \<or> create_rfm_columns h data id' dates revenue = Inl TypeError"
    using create_rfm_columns_missing by blast
  have 2: "dates \<notin> set (map fst (h ! data)) \<longrightarrow>
       create_rfm_columns h data id' dates revenue = Inl KeyError"
    using create_rfm_columns_dates_missing by blast
  have 3: "create_rfm_columns h data id' dates revenue = Inl KeyError \<longrightarrow>
       \<not> {id', dates, revenue} \<subseteq> set (map fst (h ! data))"
  proof (intro impI notI)
    assume k: "create_rfm_columns h data id' dates revenue = Inl KeyError"
      and "{id', dates, revenue} \<subseteq> set (map fst (h ! data))"
    from create_rfm_columns_present_errors [OF this(2) k] show False by simp
  qed
  have 4: "map_of (h ! data) id' = Some ids \<and> map_of (h ! data) dates = Some dcol
      \<and> revenue \<in> set (map fst (h ! data)) \<and> length dcol = length ids
      \<and> distinct [id', dates, revenue] \<and> dcol \<noteq> [] \<longrightarrow>
       (list_all is_StrV dcol \<longrightarrow>
          create_rfm_columns h data id' dates revenue = Inl TypeError)
     \<and> (list_all is_IntV dcol \<longrightarrow>
          create_rfm_columns h data id' dates revenue = Inl AttributeError)"
  proof (intro impI, elim conjE)
    assume a: "map_of (h ! data) id' = Some ids" "map_of (h ! data) dates = Some dcol"
      "revenue \<in> set (map fst (h ! data))" "length dcol = length ids"
      "distinct [id', dates, revenue]" "dcol \<noteq> []"
    have s: "create_rfm_columns h data id' dates revenue = Inl TypeError"
      if "list_all is_StrV dcol"
    proof (rule create_rfm_columns_days_error [OF a])
      from that show "same_kind dcol" by (intro same_kind_strs) (simp add: list_all_iff)
      fix x y assume "x \<in> set dcol" "y \<in> set dcol"
      with that show "days_between (Some x) (Some y) = Inl TypeError"
        by (intro days_between_strs) (simp_all add: list_all_iff)
    qed
    have i: "create_rfm_columns h data id' dates revenue = Inl AttributeError"
      if "list_all is_IntV dcol"
    proof (rule create_rfm_columns_days_error [OF a])
      from that show "same_kind dcol" by (intro same_kind_ints) (simp add: list_all_iff)
      fix x y assume "x \<in> set dcol" "y \<in> set dcol"
      with that show "days_between (Some x) (Some y) = Inl AttributeError"
        by (intro days_between_ints) (simp_all add: list_all_iff)
    qed
    from s i show "(list_all is_StrV dcol \<longrightarrow>
          create_rfm_columns h data id' dates revenue = Inl TypeError)
     \<and> (list_all is_IntV dcol \<longrightarrow>
          create_rfm_columns h data id' dates revenue = Inl AttributeError)"
      by blast
  qed
  show ?thesis by (intro conjI 1 2 3 4)
qed

theorem create_rfm_columns_errors_witness:
  "\<not> {''customer'', ''date'', ''revenue''}
       \<subseteq> set (map fst ([[(''customer'', [StrV ''C1'']), (''revenue'', [IntV 100])]] ! 0))
 \<and> ''date'' \<notin> set (map fst ([[(''customer'', [StrV ''C1'']), (''revenue'', [IntV 100])]] ! 0))
 \<and> create_rfm_columns [[(''customer'', [StrV ''C1'']), (''revenue'', [IntV 100])]] 0
       ''customer'' ''date'' ''revenue'' = Inl KeyError
 \<and> map_of ([[(''customer'', [StrV ''C1'']), (''date'', [StrV ''2023-01-01'']),
              (''revenue'', [IntV 100])]] ! 0) ''customer'' = Some [StrV ''C1'']
 \<and> map_of ([[(''customer'', [StrV ''C1'']), (''date'', [StrV ''2023-01-01'']),
              (''revenue'', [IntV 100])]] ! 0) ''date'' = Some [StrV ''2023-01-01'']
 \<and> ''revenue'' \<in> set (map fst ([[(''customer'', [StrV ''C1'']), (''date'', [StrV ''2023-01-01'']),
              (''revenue'', [IntV 100])]] ! 0))
 \<and> length [StrV ''2023-01-01''] = length [StrV ''C1'']
 \<and> distinct [''customer'', ''date'', ''revenue'']
 \<and> [StrV ''2023-01-01''] \<noteq> []
 \<and> list_all is_StrV [StrV ''2023-01-01'']
 \<and> create_rfm_columns [[(''customer'', [StrV ''C1'']), (''date'', [StrV ''2023-01-01'']),
              (''revenue'', [IntV 100])]] 0 ''customer'' ''date'' ''revenue'' = Inl TypeError
 \<and> map_of ([[(''customer'', [StrV ''C1'']), (''date'', [IntV 20230101]),
              (''revenue'', [IntV 100])]] ! 0) ''customer'' = Some [StrV ''C1'']
 \<and> map_of ([[(''customer'', [StrV ''C1'']), (''date'', [IntV 20230101]),
              (''revenue'', [IntV 100])]] ! 0) ''date'' = Some [IntV 20230101]
 \<and> ''revenue'' \<in> set (map fst ([[(''customer'', [StrV ''C1'']), (''date'', [IntV 20230101]),
              (''revenue'', [IntV 100])]] ! 0))
 \<and> length [IntV 20230101] = length [StrV ''C1'']
 \<and> [IntV 20230101] \<noteq> []
 \<and> list_all is_IntV [IntV 20230101]
 \<and> create_rfm_columns [[(''customer'', [StrV ''C1'']), (''date'', [IntV 20230101]),
              (''revenue'', [IntV 100])]] 0 ''customer'' ''date'' ''revenue''
      = Inl AttributeError"
proof -
  let ?h = "[[(''customer'', [StrV ''C1'']), (''revenue'', [IntV 100])]]"
  let ?g = "[[(''customer'', [StrV ''C1'']), (''date'', [StrV ''2023-01-01'']),
              (''revenue'', [IntV 100])]]"
  let ?k = "[[(''customer'', [StrV ''C1'']), (''date'', [IntV 20230101]),
              (''revenue'', [IntV 100])]]"
  have a: "''date'' \<notin> set (map fst (?h ! 0))" by simp
  have b: "\<not> {''customer'', ''date'', ''revenue''} \<subseteq> set (map fst (?h ! 0))" by simp
  have c: "create_rfm_columns ?h 0 ''customer'' ''date'' ''revenue'' = Inl KeyError"
    using create_rfm_columns_errors
            [where h = ?h and data = 0 and id' = "''customer''" and dates = "''date''"
               and revenue = "''revenue''"] a
    by blast
  have d1: "map_of (?g ! 0) ''customer'' = Some [StrV ''C1'']" by simp
  have d2: "map_of (?g ! 0) ''date'' = Some [StrV ''2023-01-01'']" by simp
  have d3: "''revenue'' \<in> set (map fst (?g ! 0))" by simp
  have d4: "length [StrV ''2023-01-01''] = length [StrV ''C1'']" by simp
  have d5: "distinct [''customer'', ''date'', ''revenue'']" by simp
  have d6: "[StrV ''2023-01-01''] \<noteq> []" by simp
  have d7: "list_all is_StrV [StrV ''2023-01-01'']" by simp
  have e: "create_rfm_columns ?g 0 ''customer'' ''date'' ''revenue'' = Inl TypeError"
    using create_rfm_columns_errors
            [where h = ?g and data = 0 and id' = "''customer''" and dates = "''date''"
               and revenue = "''revenue''" and ids = "[StrV ''C1'']"
               and dcol = "[StrV ''2023-01-01'']"] d1 d2 d3 d4 d5 d6 d7
    by blast
  have f1: "map_of (?k ! 0) ''customer'' = Some [StrV ''C1'']" by simp
  have f2: "map_of (?k ! 0) ''date'' = Some [IntV 20230101]" by simp
  have f3: "''revenue'' \<in> set (map fst (?k ! 0))" by simp
  have f4: "length [IntV 20230101] = length [StrV ''C1'']" by simp
  have f6: "[IntV 20230101] \<noteq> []" by simp
  have f7: "list_all is_IntV [IntV 20230101]" by simp
  have g: "create_rfm_columns ?k 0 ''customer'' ''date'' ''revenue'' = Inl AttributeError"
    using create_rfm_columns_errors
            [where h = ?k and data = 0 and id' = "''customer''" and dates = "''date''"
               and revenue = "''revenue''" and ids = "[StrV ''C1'']"
               and dcol = "[IntV 20230101]"] f1 f2 f3 f4 d5 f6 f7
    by blast
  show ?thesis by (intro conjI a b c d1 d2 d3 d4 d5 d6 d7 e f1 f2 f3 f4 f6 f7 g)
qed

theorem create_rfm_columns_raises_builtin_errors_counterexample:
  "create_rfm_columns [[(''customer'', [StrV ''C1'']), (''revenue'', [IntV 100])]] 0
       ''customer'' ''date'' ''revenue'' = Inl KeyError
 \<and> create_rfm_columns [[(''customer'', [StrV ''C1'']), (''date'', [StrV ''2023-01-01'']),
       (''revenue'', [IntV 100])]] 0 ''customer'' ''date'' ''revenue'' = Inl TypeError
 \<and> create_rfm_columns [[(''customer'', [StrV ''C1'']), (''date'', [IntV 20230101]),
       (''revenue'', [IntV 100])]] 0 ''customer'' ''date'' ''revenue'' = Inl AttributeError"
  by code_simp

section \<open>What the stages do to the store\<close>

lemma assign_score_Inr:
  assumes "assign_score h data = Inr h1"
  obtains sc where "h1 = setitem h data ''RFM_Score'' sc"
proof (cases "three_columns astype_int (h ! data)")
  case (Inl e)
  with assms show thesis by (simp add: assign_score_def)
next
  case (Inr t)
  obtain r f m where "t = (r, f, m)" by (cases t)
  with Inr assms
  have "h1 = setitem h data ''RFM_Score'' (map IntV (map2 add64 (map2 add64 r f) m))"
    by (simp add: assign_score_def)
  then show thesis by (rule that)
qed

lemma create_rfm_columns_new_frame:
  assumes "create_rfm_columns h data id' dates revenue = Inr (h', r')"
  shows "(\<exists>df. h' = h @ [df]) \<and> r' = length h"
proof -
  from assms obtain idcol cols where
    "(if length cols \<noteq> 3 then Inl ValueError
      else if id' \<in> set [''Recency'', ''Frequency'', ''Monetary''] then Inl ValueError
      else Inr (h @ [(id', group_keys idcol)
                      # zip [''Recency'', ''Frequency'', ''Monetary''] cols], length h))
       = (Inr (h', r') :: err + heap \<times> ref)"
    unfolding create_rfm_columns_def sum_bind_Inr by blast
  then have "Inr (h @ [(id', group_keys idcol)
                      # zip [''Recency'', ''Frequency'', ''Monetary''] cols], length h)
       = (Inr (h', r') :: err + heap \<times> ref)"
    by (metis sum.distinct(1))
  then show ?thesis by blast
qed

lemma top_customers_new_frame:
  assumes "top_customers a h data = Inr (h', r')"
  shows "(\<exists>df. h' = h @ [df]) \<and> r' = length h"
  using assms unfolding top_customers_def sum_bind_Inr by blast

lemma give_names_to_segments_Inr:
  assumes "give_names_to_segments h data = Inr (h', r')"
  obtains names where "traverse naming (iterrows (h ! data)) = Inr names"
    "h' = setitem h data ''Segment_Name'' names" "r' = data"
  using assms unfolding give_names_to_segments_def sum_bind_Inr by blast

text \<open>
  Claim C9 (amended). \<open>create_rfm_columns\<close> and \<open>top_customers\<close> leave every table of the
  store as it was and return a new table. \<open>scale_rfm_columns\<close> and
  \<open>give_names_to_segments\<close> return the very table they were given, after writing the
  columns R, F and M, respectively Segment\_Name, into it. \<open>rfm_scores\<close> writes the columns
  RFM\_Score and RFM\_Segment into the table it was given and returns a new, sorted table.
  No stage touches any other table of the store.
\<close>

theorem stages_frame_effects:
  "(create_rfm_columns h data id' dates revenue = Inr (h', r') \<longrightarrow>
      (\<exists>df. h' = h @ [df]) \<and> r' = length h)
 \<and> (top_customers a h data = Inr (h', r') \<longrightarrow>
      (\<exists>df. h' = h @ [df]) \<and> r' = length h)
 \<and> (data < length h \<and> scale_rfm_columns h data = Inr (h', r') \<longrightarrow>
      r' = data \<and> length h' = length h \<and> (\<forall>i. i \<noteq> data \<longrightarrow> h' ! i = h ! i)
    \<and> (\<exists>r f m. h' ! data
          = AList.update ''M'' m (AList.update ''F'' f (AList.update ''R'' r (h ! data)))))
 \<and> (data < length h \<and> rfm_scores a h data = Inr (h', r') \<longrightarrow>
      r' = length h \<and> length h' = Suc (length h)
    \<and> (\<forall>i < length h. i \<noteq> data \<longrightarrow> h' ! i = h ! i)
    \<and> (\<exists>sc sg. h' ! data
          = AList.update ''RFM_Segment'' sg (AList.update ''RFM_Score'' sc (h ! data))))
 \<and> (data < length h \<and> give_names_to_segments h data = Inr (h', r') \<longrightarrow>
      r' = data \<and> length h' = length h \<and> (\<forall>i. i \<noteq> data \<longrightarrow> h' ! i = h ! i)
    \<and> (\<exists>names. h' ! data = AList.update ''Segment_Name'' names (h ! data)))"
proof -
  have create: "create_rfm_columns h data id' dates revenue = Inr (h', r') \<longrightarrow>
      (\<exists>df. h' = h @ [df]) \<and> r' = length h"
    using create_rfm_columns_new_frame by blast
  have top: "top_customers a h data = Inr (h', r') \<longrightarrow>
      (\<exists>df. h' = h @ [df]) \<and> r' = length h"
    using top_customers_new_frame by blast
  have scale: "data < length h \<and> scale_rfm_columns h data = Inr (h', r') \<longrightarrow>
      r' = data \<and> length h' = length h \<and> (\<forall>i. i \<noteq> data \<longrightarrow> h' ! i = h ! i)
    \<and> (\<exists>r f m. h' ! data
          = AList.update ''M'' m (AList.update ''F'' f (AList.update ''R'' r (h ! data))))"
  proof (intro impI, elim conjE)
    assume d: "data < length h" and s: "scale_rfm_columns h data = Inr (h', r')"
    from s obtain r f m where
      h': "h' = setitem (setitem (setitem h data ''R'' r) data ''F'' f) data ''M'' m"
      and r': "r' = data"
      by (rule scale_rfm_columns_Inr)
    have "h' ! data
          = AList.update ''M'' m (AList.update ''F'' f (AList.update ''R'' r (h ! data)))"
      using d unfolding h'
      by (simp add: length_setitem setitem_nth_same del: AList.update.simps)
    moreover have "length h' = length h" unfolding h' by (simp add: length_setitem)
    moreover have "\<forall>i. i \<noteq> data \<longrightarrow> h' ! i = h ! i"
      unfolding h' by (simp add: setitem_nth_other)
    ultimately show "r' = data \<and> length h' = length h
      \<and> (\<forall>i. i \<noteq> data \<longrightarrow> h' ! i = h ! i)
      \<and> (\<exists>r f m. h' ! data
          = AList.update ''M'' m (AList.update ''F'' f (AList.update ''R'' r (h ! data))))"
      using r' by blast
  qed
  have scores: "data < length h \<and> rfm_scores a h data = Inr (h', r') \<longrightarrow>
      r' = length h \<and> length h' = Suc (length h)
    \<and> (\<forall>i < length h. i \<noteq> data \<longrightarrow> h' ! i = h ! i)
    \<and> (\<exists>sc sg. h' ! data
          = AList.update ''RFM_Segment'' sg (AList.update ''RFM_Score'' sc (h ! data)))"
  proof (intro impI, elim conjE)
    assume d: "data < length h" and s: "rfm_scores a h data = Inr (h', r')"
    from s obtain h1 h2 strs where 1: "assign_score h data = Inr h1"
      and h2: "h2 = setitem h1 data ''RFM_Segment'' (map StrV strs)"
      and h': "h' = h2 @ [h' ! r']" and r': "r' = length h2"
      by (rule rfm_scores_Inr)
    from 1 obtain sc where h1: "h1 = setitem h data ''RFM_Score'' sc"
      by (rule assign_score_Inr)
    have l2: "length h2 = length h" unfolding h2 h1 by (simp add: length_setitem)
    have nth: "h' ! i = h2 ! i" if "i < length h" for i
      using that l2 by (subst h') (simp add: nth_append)
    have len: "length h' = Suc (length h)"
      using l2 by (subst h') simp
    have other: "h2 ! i = h ! i" if "i \<noteq> data" for i
      using that unfolding h2 h1 by (simp add: setitem_nth_other)
    have same: "h2 ! data
       = AList.update ''RFM_Segment'' (map StrV strs) (AList.update ''RFM_Score'' sc (h ! data))"
      using d unfolding h2 h1
      by (simp add: setitem_nth_same length_setitem del: AList.update.simps)
    have "\<forall>i < length h. i \<noteq> data \<longrightarrow> h' ! i = h ! i"
      using nth other by simp
    moreover have "h' ! data
       = AList.update ''RFM_Segment'' (map StrV strs) (AList.update ''RFM_Score'' sc (h ! data))"
      using nth [OF d] same by (rule trans)
    then have "\<exists>sc sg. h' ! data
          = AList.update ''RFM_Segment'' sg (AList.update ''RFM_Score'' sc (h ! data))"
      by (intro exI)
    ultimately show "r' = length h \<and> length h' = Suc (length h)
      \<and> (\<forall>i < length h. i \<noteq> data \<longrightarrow> h' ! i = h ! i)
      \<and> (\<exists>sc sg. h' ! data
          = AList.update ''RFM_Segment'' sg (AList.update ''RFM_Score'' sc (h ! data)))"
      using r' l2 len by simp
  qed
  have names: "data < length h \<and> give_names_to_segments h data = Inr (h', r') \<longrightarrow>
      r' = data \<and> length h' = length h \<and> (\<forall>i. i \<noteq> data \<longrightarrow> h' ! i = h ! i)
    \<and> (\<exists>names. h' ! data = AList.update ''Segment_Name'' names (h ! data))"
  proof (intro impI, elim conjE)
    assume d: "data < length h" and s: "give_names_to_segments h data = Inr (h', r')"
    from s obtain names where h': "h' = setitem h data ''Segment_Name'' names"
      and r': "r' = data"
      by (rule give_names_to_segments_Inr)
    have "h' ! data = AList.update ''Segment_Name'' names (h ! data)"
      using d unfolding h' by (simp add: setitem_nth_same del: AList.update.simps)
    moreover have "length h' = length h" unfolding h' by (simp add: length_setitem)
    moreover have "\<forall>i. i \<noteq> data \<longrightarrow> h' ! i = h ! i"
      unfolding h' by (simp add: setitem_nth_other)
    ultimately show "r' = data \<and> length h' = length h
      \<and> (\<forall>i. i \<noteq> data \<longrightarrow> h' ! i = h ! i)
      \<and> (\<exists>names. h' ! data = AList.update ''Segment_Name'' names (h ! data))"
      using r' by blast
  qed
  show ?thesis by (intro conjI create top scale scores names)
qed

theorem stages_frame_effects_witness:
  "create_rfm_columns [transactions3] 0 ''customer'' ''date'' ''revenue''
     = Inr ([transactions3, metrics3], 1)
 \<and> (\<exists>df. [transactions3, metrics3] = [transactions3] @ [df])
 \<and> top_customers stable_argsort [scored4_data, scored4] 1
     = Inr ([scored4_data, scored4, scored4], 2)
 \<and> (\<exists>df. [scored4_data, scored4, scored4] = [scored4_data, scored4] @ [df])
 \<and> (0::nat) < length [metrics4]
 \<and> scale_rfm_columns [metrics4] 0 = Inr ([encoded4], 0)
 \<and> length [encoded4] = length [metrics4]
 \<and> (\<exists>r f m. [encoded4] ! 0
        = AList.update ''M'' m (AList.update ''F'' f (AList.update ''R'' r ([metrics4] ! 0))))
 \<and> (0::nat) < length [encoded4]
 \<and> rfm_scores stable_argsort [encoded4] 0 = Inr ([scored4_data, scored4], 1)
 \<and> length [scored4_data, scored4] = Suc (length [encoded4])
 \<and> (\<exists>sc sg. [scored4_data, scored4] ! 0
        = AList.update ''RFM_Segment'' sg (AList.update ''RFM_Score'' sc ([encoded4] ! 0)))
 \<and> (0::nat) < length [[(''RFM_Score'', [IntV 9, IntV 8, IntV 3])]]
 \<and> give_names_to_segments [[(''RFM_Score'', [IntV 9, IntV 8, IntV 3])]] 0
     = Inr ([[(''RFM_Score'', [IntV 9, IntV 8, IntV 3]),
              (''Segment_Name'', [StrV ''Can't Loose Them'', StrV ''Champions'',
                                  StrV ''Demands Activation''])]], 0)
 \<and> (\<exists>names. [[(''RFM_Score'', [IntV 9, IntV 8, IntV 3]),
              (''Segment_Name'', [StrV ''Can't Loose Them'', StrV ''Champions'',
                                  StrV ''Demands Activation''])]] ! 0
        = AList.update ''Segment_Name'' names ([[(''RFM_Score'', [IntV 9, IntV 8, IntV 3])]] ! 0))"
proof -
  let ?s = "[[(''RFM_Score'', [IntV 9, IntV 8, IntV 3])]]"
  let ?n = "[[(''RFM_Score'', [IntV 9, IntV 8, IntV 3]),
              (''Segment_Name'', [StrV ''Can't Loose Them'', StrV ''Champions'',
                                  StrV ''Demands Activation''])]]"
  have a: "create_rfm_columns [transactions3] 0 ''customer'' ''date'' ''revenue''
     = Inr ([transactions3, metrics3], 1)"
    by code_simp
  have a': "\<exists>df. [transactions3, metrics3] = [transactions3] @ [df]"
    using stages_frame_effects
            [where h = "[transactions3]" and data = 0 and id' = "''customer''"
               and dates = "''date''" and revenue = "''revenue''"
               and h' = "[transactions3, metrics3]" and r' = 1] a
    by blast
  have b: "top_customers stable_argsort [scored4_data, scored4] 1
     = Inr ([scored4_data, scored4, scored4], 2)"
    by code_simp
  have b': "\<exists>df. [scored4_data, scored4, scored4] = [scored4_data, scored4] @ [df]"
    using stages_frame_effects
            [where h = "[scored4_data, scored4]" and data = 1 and a = stable_argsort
               and h' = "[scored4_data, scored4, scored4]" and r' = 2] b
    by blast
  have c0: "(0::nat) < length [metrics4]" by simp
  have c: "scale_rfm_columns [metrics4] 0 = Inr ([encoded4], 0)" by code_simp
  have c1: "length [encoded4] = length [metrics4]" by simp
  have c': "\<exists>r f m. [encoded4] ! 0
        = AList.update ''M'' m (AList.update ''F'' f (AList.update ''R'' r ([metrics4] ! 0)))"
    using stages_frame_effects
            [where h = "[metrics4]" and data = 0 and h' = "[encoded4]" and r' = 0] c0 c
    by blast
  have d0: "(0::nat) < length [encoded4]" by simp
  have d: "rfm_scores stable_argsort [encoded4] 0 = Inr ([scored4_data, scored4], 1)"
    by code_simp
  have d1: "length [scored4_data, scored4] = Suc (length [encoded4])" by simp
  have d': "\<exists>sc sg. [scored4_data, scored4] ! 0
        = AList.update ''RFM_Segment'' sg (AList.update ''RFM_Score'' sc ([encoded4] ! 0))"
    using stages_frame_effects
            [where h = "[encoded4]" and data = 0 and a = stable_argsort
               and h' = "[scored4_data, scored4]" and r' = 1] d0 d
    by blast
  have e0: "(0::nat) < length ?s" by simp
  have e: "give_names_to_segments ?s 0 = Inr (?n, 0)" by code_simp
  have e': "\<exists>names. ?n ! 0 = AList.update ''Segment_Name'' names (?s ! 0)"
    using stages_frame_effects [where h = ?s and data = 0 and h' = ?n and r' = 0] e0 e
    by blast
  show ?thesis by (intro conjI a a' b b' c0 c c1 c' d0 d d1 d' e0 e e')
qed

theorem stages_change_their_argument_counterexample:
  "scale_rfm_columns [metrics4] 0 = Inr ([encoded4], 0)
 \<and> [encoded4] ! 0 \<noteq> [metrics4] ! 0
 \<and> map_of ([metrics4] ! 0) ''R'' = None
 \<and> map_of ([encoded4] ! 0) ''R'' = Some [StrV ''1'', StrV ''2'', StrV ''3'', StrV ''4'']
 \<and> rfm_scores stable_argsort [encoded4] 0 = Inr ([scored4_data, scored4], 1)
 \<and> [scored4_data, scored4] ! 0 \<noteq> [encoded4] ! 0
 \<and> give_names_to_segments [[(''RFM_Score'', [IntV 9, IntV 8, IntV 3])]] 0
     = Inr ([[(''RFM_Score'', [IntV 9, IntV 8, IntV 3]),
              (''Segment_Name'', [StrV ''Can't Loose Them'', StrV ''Champions'',
                                  StrV ''Demands Activation''])]], 0)"
  by code_simp

end
